theory Spec2Isabelle
  imports Main "HOL-Library.List_Lexorder" "HOL-Library.Char_ord"
begin

section \<open>The TV notifier: event store, synchronisation, notification and weekly view\<close>

text \<open>
  The program \<^verbatim>\<open>tv_notifier.py\<close> keeps one SQLite table \<^verbatim>\<open>events(uid, summary, start_date)\<close>,
  fills it from an iCalendar feed (\<^verbatim>\<open>update_schedule\<close>), sends a reminder for every event
  of tomorrow (\<^verbatim>\<open>send_notifications\<close>) and answers a chat command with the schedule of the
  running week (\<^verbatim>\<open>send_weekly_schedule\<close>).

  Strings are byte strings here (\<^typ>\<open>string\<close>, UTF-8); the program only splits on and strips
  ASCII characters, which acts on UTF-8 bytes as it acts on code points. Strings are compared
  byte by byte, as SQLite's default collation and Python's \<^verbatim>\<open>str\<close> comparison do.
\<close>

subsection \<open>Python's string operations\<close>

text \<open>
  \<^verbatim>\<open>s.split(sep)\<close> for a separator: the pieces between the non-overlapping occurrences of
  \<^verbatim>\<open>sep\<close>, found from the left. Python raises ValueError for an empty separator; both call
  sites pass a literal, and the model returns no piece at all in that case.
\<close>

function str_split :: "string \<Rightarrow> string \<Rightarrow> string list" where
  "str_split sep s =
     (if sep = [] then []
      else if s = [] then [[]]
      else if take (length sep) s = sep then [] # str_split sep (drop (length sep) s)
      else (case str_split sep (tl s) of
              [] \<Rightarrow> [[hd s]]
            | p # ps \<Rightarrow> (hd s # p) # ps))"
  by pat_completeness auto
termination
  by (relation "measure (\<lambda>(sep, s). length s)") auto

declare str_split.simps [simp del]

text \<open>\<^verbatim>\<open>s.lstrip('0')\<close>: the string without its leading zeros.\<close>

definition lstrip0 :: "string \<Rightarrow> string" where
  "lstrip0 s = dropWhile (\<lambda>c. c = CHR ''0'') s"

text \<open>Decimal digits, and \<^verbatim>\<open>%02d\<close> and \<^verbatim>\<open>%04d\<close> for a number that fits.\<close>

definition digit_char :: "nat \<Rightarrow> char" where
  "digit_char n = ''0123456789'' ! n"

definition pad2 :: "int \<Rightarrow> string" where
  "pad2 n = [digit_char (nat (n div 10 mod 10)), digit_char (nat (n mod 10))]"

definition pad4 :: "int \<Rightarrow> string" where
  "pad4 n = [digit_char (nat (n div 1000 mod 10)), digit_char (nat (n div 100 mod 10)),
             digit_char (nat (n div 10 mod 10)), digit_char (nat (n mod 10))]"

definition digit_val :: "char \<Rightarrow> int option" where
  "digit_val c =
     (if CHR ''0'' \<le> c \<and> c \<le> CHR ''9'' then Some (int (of_char c) - 48) else None)"

fun parse_digits :: "string \<Rightarrow> int \<Rightarrow> int option" where
  "parse_digits [] acc = Some acc"
| "parse_digits (c # cs) acc =
     (case digit_val c of None \<Rightarrow> None | Some v \<Rightarrow> parse_digits cs (acc * 10 + v))"

subsection \<open>Python's \<^verbatim>\<open>datetime.date\<close>\<close>

datatype py_error =
    RequestException | ValueError | KeyError | AttributeError | OverflowError | NameError

record date =
  year :: int
  month :: int
  day :: int

definition is_leap :: "int \<Rightarrow> bool" where
  "is_leap y \<longleftrightarrow> y mod 4 = 0 \<and> (y mod 100 \<noteq> 0 \<or> y mod 400 = 0)"

definition DAYS_IN_MONTH :: "int list" where
  "DAYS_IN_MONTH = [31, 28, 31, 30, 31, 30, 31, 31, 30, 31, 30, 31]"

definition DAYS_BEFORE_MONTH :: "int list" where
  "DAYS_BEFORE_MONTH = [0, 31, 59, 90, 120, 151, 181, 212, 243, 273, 304, 334]"

definition days_in_month :: "int \<Rightarrow> int \<Rightarrow> int" where
  "days_in_month y m =
     (if m = 2 \<and> is_leap y then 29 else DAYS_IN_MONTH ! nat (m - 1))"

definition days_before_month :: "int \<Rightarrow> int \<Rightarrow> int" where
  "days_before_month y m =
     DAYS_BEFORE_MONTH ! nat (m - 1) + (if m > 2 \<and> is_leap y then 1 else 0)"

definition days_before_year :: "int \<Rightarrow> int" where
  "days_before_year y = (let p = y - 1 in p * 365 + p div 4 - p div 100 + p div 400)"

text \<open>The dates a \<^verbatim>\<open>date\<close> object can hold: years 1 to 9999, a day that the month has.\<close>

definition valid_date :: "date \<Rightarrow> bool" where
  "valid_date d \<longleftrightarrow>
     1 \<le> year d \<and> year d \<le> 9999 \<and> 1 \<le> month d \<and> month d \<le> 12 \<and>
     1 \<le> day d \<and> day d \<le> days_in_month (year d) (month d)"

definition MAXORDINAL :: int where
  "MAXORDINAL = 3652059"

text \<open>\<^verbatim>\<open>d.toordinal()\<close>: day 1 is 0001-01-01.\<close>

definition toordinal :: "date \<Rightarrow> int" where
  "toordinal d = days_before_year (year d) + days_before_month (year d) (month d) + day d"

text \<open>\<^verbatim>\<open>date.fromordinal(n)\<close>, the library's computation by cycles of 400, 100, 4 and 1 years.\<close>

definition fromordinal :: "int \<Rightarrow> date" where
  "fromordinal n =
     (let n0 = n - 1;
          n400 = n0 div 146097; r1 = n0 mod 146097;
          n100 = r1 div 36524; r2 = r1 mod 36524;
          n4 = r2 div 1461; r3 = r2 mod 1461;
          n1 = r3 div 365; r4 = r3 mod 365;
          y = n400 * 400 + 1 + n100 * 100 + n4 * 4 + n1
      in if n1 = 4 \<or> n100 = 4 then \<lparr>year = y - 1, month = 12, day = 31\<rparr>
         else
           let leapyear = (n1 = 3 \<and> (n4 \<noteq> 24 \<or> n100 = 3));
               m = (r4 + 50) div 32;
               preceding = DAYS_BEFORE_MONTH ! nat (m - 1) + (if m > 2 \<and> leapyear then 1 else 0)
           in if preceding > r4
              then \<lparr>year = y, month = m - 1,
                    day = r4 - (preceding - (DAYS_IN_MONTH ! nat (m - 2)
                                              + (if m - 1 = 2 \<and> leapyear then 1 else 0))) + 1\<rparr>
              else \<lparr>year = y, month = m, day = r4 - preceding + 1\<rparr>)"

text \<open>\<^verbatim>\<open>d.weekday()\<close>: Monday is 0, Sunday is 6.\<close>

definition weekday :: "date \<Rightarrow> int" where
  "weekday d = (toordinal d + 6) mod 7"

text \<open>\<^verbatim>\<open>d + timedelta(days=k)\<close>: OverflowError outside 0001-01-01 .. 9999-12-31.\<close>

definition date_add :: "date \<Rightarrow> int \<Rightarrow> py_error + date" where
  "date_add d k =
     (let n = toordinal d + k
      in if 0 < n \<and> n \<le> MAXORDINAL then Inr (fromordinal n) else Inl OverflowError)"

text \<open>Dates compare as the triples (year, month, day).\<close>

definition date_lt :: "date \<Rightarrow> date \<Rightarrow> bool" where
  "date_lt a b \<longleftrightarrow>
     year a < year b \<or>
     (year a = year b \<and> (month a < month b \<or> (month a = month b \<and> day a < day b)))"

definition date_le :: "date \<Rightarrow> date \<Rightarrow> bool" where
  "date_le a b \<longleftrightarrow> date_lt a b \<or> a = b"

text \<open>\<^verbatim>\<open>d.isoformat()\<close>: \<^verbatim>\<open>YYYY-MM-DD\<close>.\<close>

definition isoformat :: "date \<Rightarrow> string" where
  "isoformat d = pad4 (year d) @ ''-'' @ pad2 (month d) @ ''-'' @ pad2 (day d)"

text \<open>
  \<^verbatim>\<open>date.fromisoformat(s)\<close> on the format \<^verbatim>\<open>YYYY-MM-DD\<close>, the one \<^verbatim>\<open>isoformat\<close> writes:
  ValueError for any other text and for a day that does not exist.
\<close>

definition fromisoformat :: "string \<Rightarrow> py_error + date" where
  "fromisoformat s =
     (if length s \<noteq> 10 \<or> s ! 4 \<noteq> CHR ''-'' \<or> s ! 7 \<noteq> CHR ''-'' then Inl ValueError
      else case (parse_digits (take 4 s) 0, parse_digits (take 2 (drop 5 s)) 0,
                 parse_digits (drop 8 s) 0) of
             (Some y, Some m, Some d) \<Rightarrow>
               (let r = \<lparr>year = y, month = m, day = d\<rparr>
                in if valid_date r then Inr r else Inl ValueError)
           | _ \<Rightarrow> Inl ValueError)"

text \<open>\<^verbatim>\<open>d.strftime("%A, %B %d")\<close> in the C locale.\<close>

definition day_name :: "int \<Rightarrow> string" where
  "day_name w = [''Monday'', ''Tuesday'', ''Wednesday'', ''Thursday'', ''Friday'',
                 ''Saturday'', ''Sunday''] ! nat w"

definition month_name :: "int \<Rightarrow> string" where
  "month_name m = [''January'', ''February'', ''March'', ''April'', ''May'', ''June'', ''July'',
                   ''August'', ''September'', ''October'', ''November'', ''December'']
                  ! nat (m - 1)"

definition strftime_A_B_d :: "date \<Rightarrow> string" where
  "strftime_A_B_d d = day_name (weekday d) @ '', '' @ month_name (month d) @ '' '' @ pad2 (day d)"

subsection \<open>The event store\<close>

text \<open>
  One row of the table \<^verbatim>\<open>events\<close>. The store is the list of its rows in insertion order,
  the order in which a scan of the table returns them. \<^verbatim>\<open>uid\<close> is the primary key.
\<close>

record event =
  uid :: string
  summary :: string
  start_date :: string

type_synonym store = "event list"

text \<open>
  \<^verbatim>\<open>INSERT OR IGNORE INTO events VALUES (?, ?, ?)\<close>: the row is added unless a row with its
  \<^verbatim>\<open>uid\<close> is there. The statement gives nothing back that the program reads: the result
  of \<^verbatim>\<open>cursor.execute\<close> is dropped, and the only effect is the one on the table.
\<close>

definition insert_or_ignore :: "event \<Rightarrow> store \<Rightarrow> store" where
  "insert_or_ignore e st = (if uid e \<in> set (map uid st) then st else st @ [e])"

text \<open>\<^verbatim>\<open>SELECT ... WHERE start_date BETWEEN ? AND ?\<close>, a comparison of texts.\<close>

definition query_by_date_range :: "string \<Rightarrow> string \<Rightarrow> store \<Rightarrow> event list" where
  "query_by_date_range lo hi st = filter (\<lambda>r. lo \<le> start_date r \<and> start_date r \<le> hi) st"

text \<open>\<^verbatim>\<open>SELECT uid, summary ... WHERE start_date = ?\<close>.\<close>

definition query_by_date :: "string \<Rightarrow> store \<Rightarrow> (string \<times> string) list" where
  "query_by_date d st = map (\<lambda>r. (uid r, summary r)) (filter (\<lambda>r. start_date r = d) st)"

subsection \<open>\<^verbatim>\<open>update_schedule\<close>\<close>

text \<open>
  What the world gives to one run: the outcome of the download, the parser of the calendar
  library (\<^verbatim>\<open>None\<close> when \<^verbatim>\<open>Calendar.from_ical\<close> raises), and for the n-th record of the feed
  whether SQLite raises on its insert. A component of the feed may lack a property, and its
  \<^verbatim>\<open>DTSTART\<close> is a date-time or a plain date (which has no method \<^verbatim>\<open>date()\<close>).
\<close>

datatype fetch_outcome = FetchFailed | Fetched string

datatype dt_value = DateTimeVal date | DateVal date

record vevent =
  v_uid :: "string option"
  v_dtstart :: "dt_value option"
  v_summary :: "string option"

datatype log_entry =
    LogDownloaded | LogInsertFailed string | LogUpdated | LogDownloadFailed
  | LogUpdateError py_error

text \<open>Lines 61 to 63: the three reads of one component, in the order of the source.\<close>

definition read_component :: "vevent \<Rightarrow> py_error + event" where
  "read_component ev =
     (case v_uid ev of
        None \<Rightarrow> Inl KeyError
      | Some u \<Rightarrow>
          (case v_dtstart ev of
             None \<Rightarrow> Inl KeyError
           | Some (DateVal d) \<Rightarrow> Inl AttributeError
           | Some (DateTimeVal d) \<Rightarrow>
               (case v_summary ev of
                  None \<Rightarrow> Inl KeyError
                | Some s \<Rightarrow> Inr \<lparr>uid = u, summary = s, start_date = isoformat d\<rparr>)))"

text \<open>
  The loop over the components. An error of SQLite is caught inside the loop (a warning, and
  the loop goes on); any other exception leaves the loop with the rows inserted so far.
\<close>

fun insert_events ::
  "(nat \<Rightarrow> bool) \<Rightarrow> nat \<Rightarrow> vevent list \<Rightarrow> store \<Rightarrow> log_entry list
     \<Rightarrow> py_error option \<times> store \<times> log_entry list" where
  "insert_events faults i [] st lg = (None, st, lg)"
| "insert_events faults i (ev # evs) st lg =
     (case read_component ev of
        Inl e \<Rightarrow> (Some e, st, lg)
      | Inr r \<Rightarrow>
          if faults i then insert_events faults (Suc i) evs st (lg @ [LogInsertFailed (uid r)])
          else insert_events faults (Suc i) evs (insert_or_ignore r st) lg)"

definition update_schedule ::
  "fetch_outcome \<Rightarrow> (string \<Rightarrow> vevent list option) \<Rightarrow> (nat \<Rightarrow> bool) \<Rightarrow> store
     \<Rightarrow> store \<times> log_entry list" where
  "update_schedule fetched from_ical faults st =
     (case fetched of
        FetchFailed \<Rightarrow> (st, [LogDownloadFailed])
      | Fetched content \<Rightarrow>
          (case from_ical content of
             None \<Rightarrow> (st, [LogDownloaded, LogUpdateError ValueError])
           | Some evs \<Rightarrow>
               (case insert_events faults 0 evs st [LogDownloaded] of
                  (None, st', lg) \<Rightarrow> (st', lg @ [LogUpdated])
                | (Some e, st', lg) \<Rightarrow> (st', lg @ [LogUpdateError e]))))"

subsection \<open>\<^verbatim>\<open>send_notifications\<close>\<close>

definition newline :: string where
  "newline = [CHR 0x0A]"

definition red_circle :: string where
  "red_circle = [CHR 0xF0, CHR 0x9F, CHR 0x94, CHR 0xB4]"

definition message_text :: "string \<Rightarrow> string" where
  "message_text s =
     (let show_parts = str_split '': '' s
      in if length show_parts = 2
         then ''Reminder: '' @ show_parts ! 0 @ newline @ red_circle @ '' Episode: ''
              @ show_parts ! 1 @ '' airs tomorrow!''
         else ''Reminder: '' @ s @ '' airs tomorrow!'')"

text \<open>The messages handed to the bot, each with the \<^verbatim>\<open>uid\<close> of its event.\<close>

definition send_notifications :: "date \<Rightarrow> store \<Rightarrow> py_error + (string \<times> string) list" where
  "send_notifications today st =
     (case date_add today 1 of
        Inl e \<Rightarrow> Inl e
      | Inr tomorrow \<Rightarrow>
          Inr (map (\<lambda>(u, s). (u, message_text s)) (query_by_date (isoformat tomorrow) st)))"

subsection \<open>\<^verbatim>\<open>send_weekly_schedule\<close>\<close>

text \<open>Line 135: the end of the week, \<^verbatim>\<open>today + timedelta(days=(6 - today.weekday()) % 7)\<close>.\<close>

definition next_sunday :: "date \<Rightarrow> py_error + date" where
  "next_sunday today = date_add today ((6 - weekday today) mod 7)"

text \<open>
  \<^verbatim>\<open>weekly_schedule\<close> is a dictionary of dictionaries of lists; dictionaries keep the order in
  which their keys were first inserted, so each is a list of pairs with distinct keys.
\<close>

type_synonym day_shows = "(string \<times> string list) list"
type_synonym schedule = "(date \<times> day_shows) list"

text \<open>Lines 177 to 179 on the dictionary of one day.\<close>

fun append_episode :: "string \<Rightarrow> string \<Rightarrow> day_shows \<Rightarrow> day_shows" where
  "append_episode t ep [] = [(t, [ep])]"
| "append_episode t ep ((t', eps) # rest) =
     (if t' = t then (t', eps @ [ep]) # rest else (t', eps) # append_episode t ep rest)"

text \<open>Lines 175 to 179 on the whole dictionary.\<close>

fun add_episode :: "date \<Rightarrow> string \<Rightarrow> string \<Rightarrow> schedule \<Rightarrow> schedule" where
  "add_episode d t ep [] = [(d, [(t, [ep])])]"
| "add_episode d t ep ((d', sh) # rest) =
     (if d' = d then (d', append_episode t ep sh) # rest else (d', sh) # add_episode d t ep rest)"

text \<open>
  Lines 161 to 172 for one row: the date, title, season and episode it contributes, or nothing.
  A text that is no date and a summary that does not unpack into two parts raise ValueError,
  which the handler of line 181 turns into the next iteration; the two \<^verbatim>\<open>continue\<close> do the
  same without a log line.
\<close>

definition parse_event :: "date \<Rightarrow> event \<Rightarrow> (date \<times> string \<times> string \<times> string) option" where
  "parse_event today r =
     (case fromisoformat (start_date r) of
        Inl e \<Rightarrow> None
      | Inr sd \<Rightarrow>
          if date_lt sd today then None
          else
            let parts = str_split '': '' (summary r)
            in if length parts \<noteq> 2 then None
               else
                 let season_episode = str_split ''x'' (parts ! 1)
                 in if length season_episode \<noteq> 2 then None
                    else Some (sd, parts ! 0, season_episode ! 0, season_episode ! 1))"

text \<open>
  The loop of line 159. Its state is the dictionary and the variable \<^verbatim>\<open>season\<close>, which is
  unbound until a row reaches line 171.
\<close>

fun organize :: "date \<Rightarrow> event list \<Rightarrow> schedule \<Rightarrow> string option \<Rightarrow> schedule \<times> string option" where
  "organize today [] ws season = (ws, season)"
| "organize today (r # rs) ws season =
     (case parse_event today r of
        None \<Rightarrow> organize today rs ws season
      | Some (sd, title, s, ep) \<Rightarrow> organize today rs (add_episode sd title ep ws) (Some s))"

text \<open>\<^verbatim>\<open>sorted(weekly_schedule.keys())\<close>: the keys are distinct dates.\<close>

fun insert_date :: "date \<Rightarrow> date list \<Rightarrow> date list" where
  "insert_date d [] = [d]"
| "insert_date d (x # xs) = (if date_lt x d then x # insert_date d xs else d # x # xs)"

definition sorted_dates :: "date list \<Rightarrow> date list" where
  "sorted_dates ds = foldr insert_date ds []"

definition calendar_icon :: string where
  "calendar_icon = [CHR 0xF0, CHR 0x9F, CHR 0x93, CHR 0x85]"

definition pointing_icon :: string where
  "pointing_icon = [CHR 0xF0, CHR 0x9F, CHR 0x91, CHR 0x89]"

definition bullet :: string where
  "bullet = [CHR 0xE2, CHR 0x80, CHR 0xA2]"

text \<open>Lines 198 to 201: one show of a day, with the one \<^verbatim>\<open>season\<close> the loop left behind.\<close>

definition render_show :: "string \<Rightarrow> string \<times> string list \<Rightarrow> string" where
  "render_show season sh =
     ''- '' @ fst sh @ '' (Season '' @ season @ '')'' @ newline
     @ concat (map (\<lambda>ep. ''  '' @ bullet @ '' Episode '' @ lstrip0 ep @ newline) (snd sh))"

definition render_day :: "schedule \<Rightarrow> string \<Rightarrow> date \<Rightarrow> string" where
  "render_day ws season d =
     pointing_icon @ '' '' @ strftime_A_B_d d @ '':'' @ newline
     @ concat (map (render_show season) (case map_of ws d of None \<Rightarrow> [] | Some sh \<Rightarrow> sh))
     @ newline"

definition render :: "schedule \<Rightarrow> string \<Rightarrow> string" where
  "render ws season =
     calendar_icon @ '' This week's TV schedule (from today to Sunday):'' @ newline @ newline
     @ concat (map (render_day ws season) (sorted_dates (map fst ws)))"

definition no_shows_reply :: string where
  "no_shows_reply = ''No upcoming shows scheduled for this week.''"

definition error_reply :: string where
  "error_reply = ''Error processing your request. Please try again later.''"

text \<open>
  The grouped view of the week, lines 135 to 183: the rows between today and Sunday, organised.
\<close>

definition weekly_view :: "date \<Rightarrow> store \<Rightarrow> py_error + schedule \<times> string option" where
  "weekly_view today st =
     (case next_sunday today of
        Inl e \<Rightarrow> Inl e
      | Inr sunday \<Rightarrow>
          Inr (organize today (query_by_date_range (isoformat today) (isoformat sunday) st)
                 [] None))"

text \<open>The text that the command sends back.\<close>

definition send_weekly_schedule :: "date \<Rightarrow> store \<Rightarrow> string" where
  "send_weekly_schedule today st =
     (case weekly_view today st of
        Inl e \<Rightarrow> error_reply
      | Inr (ws, season) \<Rightarrow>
          if ws = [] then no_shows_reply
          else (case season of None \<Rightarrow> error_reply | Some s \<Rightarrow> render ws s))"

subsection \<open>Reading the grouped view, and two variants the claims compare with\<close>

text \<open>The episodes listed under a date and a title, \<^verbatim>\<open>weekly_schedule[day][title]\<close>.\<close>

definition episodes_of :: "schedule \<Rightarrow> date \<Rightarrow> string \<Rightarrow> string list" where
  "episodes_of ws d t =
     (case map_of ws d of
        None \<Rightarrow> []
      | Some sh \<Rightarrow> (case map_of sh t of None \<Rightarrow> [] | Some eps \<Rightarrow> eps))"

text \<open>
  The loop of line 159 with the two lines 162 and 163 (the skip of a date before today) taken
  out, and the grouped view built with it.
\<close>

definition parse_event_unfiltered :: "event \<Rightarrow> (date \<times> string \<times> string \<times> string) option" where
  "parse_event_unfiltered r =
     (case fromisoformat (start_date r) of
        Inl e \<Rightarrow> None
      | Inr sd \<Rightarrow>
          let parts = str_split '': '' (summary r)
          in if length parts \<noteq> 2 then None
             else
               let season_episode = str_split ''x'' (parts ! 1)
               in if length season_episode \<noteq> 2 then None
                  else Some (sd, parts ! 0, season_episode ! 0, season_episode ! 1))"

fun organize_unfiltered ::
  "event list \<Rightarrow> schedule \<Rightarrow> string option \<Rightarrow> schedule \<times> string option" where
  "organize_unfiltered [] ws season = (ws, season)"
| "organize_unfiltered (r # rs) ws season =
     (case parse_event_unfiltered r of
        None \<Rightarrow> organize_unfiltered rs ws season
      | Some (sd, title, s, ep) \<Rightarrow> organize_unfiltered rs (add_episode sd title ep ws) (Some s))"

definition weekly_view_unfiltered :: "date \<Rightarrow> store \<Rightarrow> py_error + schedule \<times> string option" where
  "weekly_view_unfiltered today st =
     (case next_sunday today of
        Inl e \<Rightarrow> Inl e
      | Inr sunday \<Rightarrow>
          Inr (organize_unfiltered
                 (query_by_date_range (isoformat today) (isoformat sunday) st) [] None))"

text \<open>
  The rule of the specification for the weekly view, in its words: the summary is split once
  on the separator (\<^verbatim>\<open>s.split(": ", 1)\<close>) and must give two parts, and the second part, split
  on the letter x, must give two tokens.
\<close>

fun str_split_once :: "string \<Rightarrow> string \<Rightarrow> string list" where
  "str_split_once sep [] = (if sep = [] then [] else [[]])"
| "str_split_once sep (c # cs) =
     (if sep = [] then []
      else if take (length sep) (c # cs) = sep then [[], drop (length sep) (c # cs)]
      else (case str_split_once sep cs of
              [] \<Rightarrow> [[c]]
            | p # ps \<Rightarrow> (c # p) # ps))"

definition spec_weekly_includes :: "string \<Rightarrow> bool" where
  "spec_weekly_includes s \<longleftrightarrow>
     (let parts = str_split_once '': '' s
      in length parts = 2 \<and> length (str_split ''x'' (parts ! 1)) = 2)"

subsection \<open>Scenarios\<close>

text \<open>A feed of two episodes of one show, and a calendar parser that knows this one feed.\<close>

definition example_feed :: "vevent list" where
  "example_feed =
     [\<lparr>v_uid = Some ''1'', v_dtstart = Some (DateTimeVal \<lparr>year = 2024, month = 5, day = 10\<rparr>),
       v_summary = Some ''Show A: 2x05''\<rparr>,
      \<lparr>v_uid = Some ''2'', v_dtstart = Some (DateTimeVal \<lparr>year = 2024, month = 5, day = 10\<rparr>),
       v_summary = Some ''Show A: 2x06''\<rparr>]"

definition example_parser :: "string \<Rightarrow> vevent list option" where
  "example_parser c = (if c = ''feed'' then Some example_feed else None)"

text \<open>
  The store of the two episodes of 2024-05-10, the same with a row whose summary has no
  separator, and the day before.
\<close>

definition two_episodes :: store where
  "two_episodes =
     [\<lparr>uid = ''1'', summary = ''Show A: 2x05'', start_date = ''2024-05-10''\<rparr>,
      \<lparr>uid = ''2'', summary = ''Show A: 2x06'', start_date = ''2024-05-10''\<rparr>]"

definition malformed_entry :: event where
  "malformed_entry = \<lparr>uid = ''3'', summary = ''Malformed Entry'', start_date = ''2024-05-10''\<rparr>"

definition may_9 :: date where
  "may_9 = \<lparr>year = 2024, month = 5, day = 9\<rparr>"

text \<open>Two shows of different seasons on one day.\<close>

definition two_shows :: store where
  "two_shows =
     [\<lparr>uid = ''1'', summary = ''Show A: 1x01'', start_date = ''2024-05-10''\<rparr>,
      \<lparr>uid = ''2'', summary = ''Show B: 7x02'', start_date = ''2024-05-10''\<rparr>]"

text \<open>Python's \<^verbatim>\<open>p in s\<close> for two strings: \<open>p\<close> occurs in \<open>s\<close>.\<close>

fun str_contains :: "string \<Rightarrow> string \<Rightarrow> bool" where
  "str_contains p [] = (p = [])"
| "str_contains p (c # cs) = (take (length p) (c # cs) = p \<or> str_contains p cs)"

text \<open>A summary in which the separator occurs twice.\<close>

definition two_separators :: event where
  "two_separators = \<lparr>uid = ''4'', summary = ''Show A: Part 2: 1x02'', start_date = ''2024-05-10''\<rparr>"

text \<open>An episode of the week after, and the Sunday that ends the week of 2024-05-09.\<close>

definition next_week_episode :: event where
  "next_week_episode = \<lparr>uid = ''5'', summary = ''Show A: 2x07'', start_date = ''2024-05-17''\<rparr>"

definition may_12 :: date where
  "may_12 = \<lparr>year = 2024, month = 5, day = 12\<rparr>"

definition may_10 :: date where
  "may_10 = \<lparr>year = 2024, month = 5, day = 10\<rparr>"



section \<open>The event store and the synchronisation\<close>


lemma insert_or_ignore_absent:
  "uid e \<notin> set (map uid st) \<Longrightarrow> insert_or_ignore e st = st @ [e]"
  by (simp add: insert_or_ignore_def)







text \<open>What the loop reports, its error and its log, does not depend on the store.\<close>

lemma insert_events_report:
  "fst (insert_events f i evs st lg) = fst (insert_events f i evs st' lg) \<and>
   snd (snd (insert_events f i evs st lg)) = snd (snd (insert_events f i evs st' lg))"
proof (induction evs arbitrary: i st st' lg)
  case Nil
  show ?case by simp
next
  case (Cons ev evs)
  show ?case
  proof (cases "read_component ev")
    case (Inl e)
    then show ?thesis by simp
  next
    case (Inr r)
    show ?thesis
    proof (cases "f i")
      case True
      then show ?thesis using Inr Cons.IH [of "Suc i" st _ st'] by simp
    next
      case False
      then show ?thesis
        using Inr Cons.IH [of "Suc i" "insert_or_ignore r st" lg "insert_or_ignore r st'"]
        by simp
    qed
  qed
qed





lemma update_schedule_report:
  "snd (update_schedule fetched from_ical f st) = snd (update_schedule fetched from_ical f st')"
proof (cases fetched)
  case FetchFailed
  then show ?thesis by (simp add: update_schedule_def)
next
  case (Fetched content)
  show ?thesis
  proof (cases "from_ical content")
    case None
    then show ?thesis using Fetched by (simp add: update_schedule_def)
  next
    case (Some evs)
    obtain e1 s1 l1 where a: "insert_events f 0 evs st [LogDownloaded] = (e1, s1, l1)"
      by (cases "insert_events f 0 evs st [LogDownloaded]") auto
    obtain e2 s2 l2 where b: "insert_events f 0 evs st' [LogDownloaded] = (e2, s2, l2)"
      by (cases "insert_events f 0 evs st' [LogDownloaded]") auto
    have "e1 = e2 \<and> l1 = l2"
      using insert_events_report [of f 0 evs st "[LogDownloaded]" st'] a b by simp
    then show ?thesis
      using Fetched Some a b by (simp add: update_schedule_def split: option.splits)
  qed
qed









text \<open>
  Claim C2, as the specification states it, has the insert report whether it added a row.
  The program has no such report: the result of the statement is dropped, and a run that
  inserts both rows of a feed and a run that finds both present end with the same log.
\<close>

theorem insert_report_counterexample:
  "update_schedule (Fetched ''feed'') example_parser (\<lambda>i. False) []
     = (two_episodes, [LogDownloaded, LogUpdated]) \<and>
   update_schedule (Fetched ''feed'') example_parser (\<lambda>i. False) two_episodes
     = (two_episodes, [LogDownloaded, LogUpdated])"
  by code_simp

text \<open>
  Claim C2, amended. On a store without the \<^verbatim>\<open>uid\<close> the insert adds the row at the end; a
  second insert of the same record changes nothing, and the store then holds exactly one row
  with that \<^verbatim>\<open>uid\<close>. Nothing tells the two apart: what a run reports, its log, is the same on
  every store.
\<close>

theorem insert_if_absent_silent:
  assumes "uid e \<notin> set (map uid st)"
  shows "insert_or_ignore e st = st @ [e] \<and>
         insert_or_ignore e (insert_or_ignore e st) = insert_or_ignore e st \<and>
         length (filter (\<lambda>r. uid r = uid e) (insert_or_ignore e st)) = 1 \<and>
         snd (update_schedule fetched from_ical faults st)
           = snd (update_schedule fetched from_ical faults st')"
proof -
  have "filter (\<lambda>r. uid r = uid e) st = []"
    using assms by (auto simp: filter_empty_conv) (metis imageI)
  then have abc: "insert_or_ignore e st = st @ [e] \<and>
         insert_or_ignore e (insert_or_ignore e st) = insert_or_ignore e st \<and>
         length (filter (\<lambda>r. uid r = uid e) (insert_or_ignore e st)) = 1"
    using assms by (simp add: insert_or_ignore_def)
  have d: "snd (update_schedule fetched from_ical faults st)
           = snd (update_schedule fetched from_ical faults st')"
    by (rule update_schedule_report)
  show ?thesis using abc d by blast
qed

theorem insert_if_absent_silent_witness:
  "uid malformed_entry \<notin> set (map uid two_episodes) \<and>
   insert_or_ignore malformed_entry two_episodes = two_episodes @ [malformed_entry] \<and>
   insert_or_ignore malformed_entry (two_episodes @ [malformed_entry])
     = two_episodes @ [malformed_entry] \<and>
   length (filter (\<lambda>r. uid r = ''3'') (two_episodes @ [malformed_entry])) = 1 \<and>
   snd (update_schedule (Fetched ''feed'') example_parser (\<lambda>i. False) two_episodes)
     = snd (update_schedule (Fetched ''feed'') example_parser (\<lambda>i. False) [])"
proof -
  have h: "uid malformed_entry \<notin> set (map uid two_episodes)"
    by (simp add: malformed_entry_def two_episodes_def)
  have u: "uid malformed_entry = ''3''" by (simp add: malformed_entry_def)
  note t = insert_if_absent_silent [OF h, of "Fetched ''feed''" example_parser "\<lambda>i. False" "[]"]
  from t have t1: "insert_or_ignore malformed_entry two_episodes = two_episodes @ [malformed_entry]"
    by blast
  from t have t2: "insert_or_ignore malformed_entry (insert_or_ignore malformed_entry two_episodes)
                   = insert_or_ignore malformed_entry two_episodes"
    by blast
  from t have t3: "length (filter (\<lambda>r. uid r = uid malformed_entry)
                     (insert_or_ignore malformed_entry two_episodes)) = 1"
    by blast
  from t have t4: "snd (update_schedule (Fetched ''feed'') example_parser (\<lambda>i. False) two_episodes)
     = snd (update_schedule (Fetched ''feed'') example_parser (\<lambda>i. False) [])"
    by blast
  show ?thesis using h t1 t2 [unfolded t1] t3 [unfolded t1 u] t4 by blast
qed







section \<open>The notification of tomorrow's events\<close>

lemmas date_eval = toordinal_def fromordinal_def days_before_year_def days_before_month_def
  DAYS_BEFORE_MONTH_def DAYS_IN_MONTH_def is_leap_def date_add_def MAXORDINAL_def weekday_def
  next_sunday_def

lemmas iso_eval = isoformat_def pad2_def pad4_def digit_char_def

lemma may_9_tomorrow: "date_add may_9 1 = Inr \<lparr>year = 2024, month = 5, day = 10\<rparr>"
  by (simp add: may_9_def date_eval Let_def)

text \<open>
  Claim C9. When tomorrow exists as a date, every stored event of tomorrow gets a message, and
  the messages are those of tomorrow's events and no others. A summary that does not split on
  the separator into exactly two parts is sent verbatim in the generic reminder; a summary of
  exactly two parts gives the message with the name of the show and the episode.
\<close>

theorem notification_fallback:
  assumes "date_add today 1 = Inr tomorrow" and "r \<in> set st"
    and "start_date r = isoformat tomorrow"
  shows "send_notifications today st
           = Inr (map (\<lambda>r. (uid r, message_text (summary r)))
                    (filter (\<lambda>r. start_date r = isoformat tomorrow) st)) \<and>
         (uid r, message_text (summary r))
           \<in> set (map (\<lambda>r. (uid r, message_text (summary r)))
                    (filter (\<lambda>r. start_date r = isoformat tomorrow) st)) \<and>
         (length (str_split '': '' (summary r)) \<noteq> 2 \<longrightarrow>
            message_text (summary r) = ''Reminder: '' @ summary r @ '' airs tomorrow!'') \<and>
         (length (str_split '': '' (summary r)) = 2 \<longrightarrow>
            message_text (summary r)
              = ''Reminder: '' @ str_split '': '' (summary r) ! 0 @ newline @ red_circle
                @ '' Episode: '' @ str_split '': '' (summary r) ! 1 @ '' airs tomorrow!'')"
proof -
  have a: "send_notifications today st
           = Inr (map (\<lambda>r. (uid r, message_text (summary r)))
                    (filter (\<lambda>r. start_date r = isoformat tomorrow) st))"
    using assms(1) by (simp add: send_notifications_def query_by_date_def)
  have b: "(uid r, message_text (summary r))
           \<in> set (map (\<lambda>r. (uid r, message_text (summary r)))
                    (filter (\<lambda>r. start_date r = isoformat tomorrow) st))"
    using assms(2,3) by auto
  show ?thesis using a b by (simp add: message_text_def Let_def)
qed

theorem notification_fallback_witness:
  "date_add may_9 1 = Inr \<lparr>year = 2024, month = 5, day = 10\<rparr> \<and>
   malformed_entry \<in> set (two_episodes @ [malformed_entry]) \<and>
   start_date malformed_entry = isoformat \<lparr>year = 2024, month = 5, day = 10\<rparr> \<and>
   (''3'', ''Reminder: Malformed Entry airs tomorrow!'')
     \<in> set (map (\<lambda>r. (uid r, message_text (summary r)))
              (filter (\<lambda>r. start_date r = isoformat \<lparr>year = 2024, month = 5, day = 10\<rparr>)
                 (two_episodes @ [malformed_entry]))) \<and>
   send_notifications may_9 (two_episodes @ [malformed_entry])
     = Inr [(''1'', ''Reminder: Show A'' @ newline @ red_circle @ '' Episode: 2x05 airs tomorrow!''),
            (''2'', ''Reminder: Show A'' @ newline @ red_circle @ '' Episode: 2x06 airs tomorrow!''),
            (''3'', ''Reminder: Malformed Entry airs tomorrow!'')]"
proof -
  have h1: "date_add may_9 1 = Inr \<lparr>year = 2024, month = 5, day = 10\<rparr>"
    by (rule may_9_tomorrow)
  have h2: "malformed_entry \<in> set (two_episodes @ [malformed_entry])" by simp
  have h3: "start_date malformed_entry = isoformat \<lparr>year = 2024, month = 5, day = 10\<rparr>"
    by (simp add: malformed_entry_def iso_eval)
  have s1: "str_split '': '' ''Show A: 2x05'' = [''Show A'', ''2x05'']"
    by (simp add: str_split.simps)
  have s2: "str_split '': '' ''Show A: 2x06'' = [''Show A'', ''2x06'']"
    by (simp add: str_split.simps)
  have s3: "str_split '': '' ''Malformed Entry'' = [''Malformed Entry'']"
    by (simp add: str_split.simps)
  note t = notification_fallback [OF h1 h2 h3]
  show ?thesis using t h1 h3 s1 s2 s3
    by (simp add: two_episodes_def malformed_entry_def message_text_def iso_eval)
qed

section \<open>The rendering of the week\<close>

lemma organize_season:
  "snd (organize today rows ws s)
   = (case List.map_filter (parse_event today) rows of
        [] \<Rightarrow> s
      | p # ps \<Rightarrow> Some (fst (snd (snd (last (p # ps))))))"
proof (induction rows arbitrary: ws s)
  case Nil
  show ?case by (simp add: List.map_filter_simps)
next
  case (Cons r rows)
  show ?case
  proof (cases "parse_event today r")
    case None
    then show ?thesis using Cons.IH by (simp add: List.map_filter_simps)
  next
    case (Some p)
    obtain d t s' ep where p: "p = (d, t, s', ep)" by (cases p) auto
    show ?thesis
      using Some p Cons.IH [of "add_episode d t ep ws" "Some s'"]
      by (simp add: List.map_filter_simps split: list.splits)
  qed
qed

text \<open>
  Claim C6. The season shown in the rendering is the one variable that the loop over the rows
  assigns: after the loop it holds the season of the last row that entered the view, whatever
  its show. With a first season of Show A and a seventh season of Show B on one day, each row
  gives its own season when it is read, the loop ends with the season of the row processed
  last, and the text shows both titles with season 7.
\<close>

theorem season_of_last_row_shown:
  "snd (organize today rows [] None)
     = (case List.map_filter (parse_event today) rows of
          [] \<Rightarrow> None
        | p # ps \<Rightarrow> Some (fst (snd (snd (last (p # ps)))))) \<and>
   parse_event may_9 (two_shows ! 0)
     = Some (\<lparr>year = 2024, month = 5, day = 10\<rparr>, ''Show A'', ''1'', ''01'') \<and>
   parse_event may_9 (two_shows ! 1)
     = Some (\<lparr>year = 2024, month = 5, day = 10\<rparr>, ''Show B'', ''7'', ''02'') \<and>
   weekly_view may_9 two_shows
     = Inr ([(\<lparr>year = 2024, month = 5, day = 10\<rparr>, [(''Show A'', [''01'']), (''Show B'', [''02''])])],
            Some ''7'') \<and>
   send_weekly_schedule may_9 two_shows =
     calendar_icon @ '' This week's TV schedule (from today to Sunday):'' @ newline @ newline
     @ pointing_icon @ '' Friday, May 10:'' @ newline
     @ ''- Show A (Season 7)'' @ newline
     @ ''  '' @ bullet @ '' Episode 1'' @ newline
     @ ''- Show B (Season 7)'' @ newline
     @ ''  '' @ bullet @ '' Episode 2'' @ newline
     @ newline"
proof -
  have example: "parse_event may_9 (two_shows ! 0)
     = Some (\<lparr>year = 2024, month = 5, day = 10\<rparr>, ''Show A'', ''1'', ''01'') \<and>
   parse_event may_9 (two_shows ! 1)
     = Some (\<lparr>year = 2024, month = 5, day = 10\<rparr>, ''Show B'', ''7'', ''02'') \<and>
   weekly_view may_9 two_shows
     = Inr ([(\<lparr>year = 2024, month = 5, day = 10\<rparr>, [(''Show A'', [''01'']), (''Show B'', [''02''])])],
            Some ''7'') \<and>
   send_weekly_schedule may_9 two_shows =
     calendar_icon @ '' This week's TV schedule (from today to Sunday):'' @ newline @ newline
     @ pointing_icon @ '' Friday, May 10:'' @ newline
     @ ''- Show A (Season 7)'' @ newline
     @ ''  '' @ bullet @ '' Episode 1'' @ newline
     @ ''- Show B (Season 7)'' @ newline
     @ ''  '' @ bullet @ '' Episode 2'' @ newline
     @ newline"
    by code_simp
  show ?thesis using organize_season [of today rows "[]" None] example by simp
qed

text \<open>
  Claim C7, as the specification states it: for the two episodes of 2024-05-10 asked for on
  2024-05-09, the text has a heading "Thursday, May 10". It has none: that day is a Friday.
\<close>

theorem weekly_scenario_heading_counterexample:
  "\<not> str_contains ''Thursday, May 10'' (send_weekly_schedule may_9 two_episodes)"
  by code_simp

text \<open>
  Claim C7, amended. The day asked for, 2024-05-09, is a Thursday and the week ends on Sunday
  2024-05-12. The text has the heading "Friday, May 10" and lists Show A with the episodes
  shown as 5 and 6; the grouped view itself keeps the tokens 05 and 06, so the leading zero is
  dropped in the text only.
\<close>

theorem weekly_scenario_rendering:
  "weekday may_9 = 3 \<and>
   next_sunday may_9 = Inr \<lparr>year = 2024, month = 5, day = 12\<rparr> \<and>
   weekly_view may_9 two_episodes
     = Inr ([(\<lparr>year = 2024, month = 5, day = 10\<rparr>, [(''Show A'', [''05'', ''06''])])], Some ''2'') \<and>
   str_contains ''Friday, May 10'' (send_weekly_schedule may_9 two_episodes) \<and>
   send_weekly_schedule may_9 two_episodes =
     calendar_icon @ '' This week's TV schedule (from today to Sunday):'' @ newline @ newline
     @ pointing_icon @ '' Friday, May 10:'' @ newline
     @ ''- Show A (Season 2)'' @ newline
     @ ''  '' @ bullet @ '' Episode 5'' @ newline
     @ ''  '' @ bullet @ '' Episode 6'' @ newline
     @ newline"
  by code_simp

section \<open>ISO dates: the order of the texts is the order of the dates\<close>

lemma digit_char_code: "n < 10 \<Longrightarrow> of_char (digit_char n) = 48 + n"
proof -
  assume "n < 10"
  then have "n \<in> {9, 8, 7, 6, 5, 4, 3, 2, 1, 0}"
    by auto
  then have "n = 9 \<or> n = 8 \<or> n = 7 \<or> n = 6 \<or> n = 5 \<or> n = 4 \<or> n = 3 \<or> n = 2 \<or> n = 1 \<or> n = 0"
    by blast
  then show ?thesis by (elim disjE) (simp_all add: digit_char_def)
qed

lemma digit_char_less: "a < 10 \<Longrightarrow> b < 10 \<Longrightarrow> (digit_char a < digit_char b) = (a < b)"
  by (simp add: less_char_def digit_char_code)

lemma digit_char_eq: "a < 10 \<Longrightarrow> b < 10 \<Longrightarrow> (digit_char a = digit_char b) = (a = b)"
proof
  assume "a < 10" "b < 10" "digit_char a = digit_char b"
  then have "(of_char (digit_char a) :: nat) = of_char (digit_char b)" by simp
  then show "a = b" using \<open>a < 10\<close> \<open>b < 10\<close> by (simp add: digit_char_code)
qed simp

lemma digit_val_digit_char: "n < 10 \<Longrightarrow> digit_val (digit_char n) = Some (int n)"
proof -
  assume "n < 10"
  then have "n \<in> {9, 8, 7, 6, 5, 4, 3, 2, 1, 0}"
    by auto
  then have "n = 9 \<or> n = 8 \<or> n = 7 \<or> n = 6 \<or> n = 5 \<or> n = 4 \<or> n = 3 \<or> n = 2 \<or> n = 1 \<or> n = 0"
    by blast
  then show ?thesis
    by (elim disjE) (simp_all add: digit_char_def digit_val_def less_eq_char_def)
qed

lemma digit_int_less:
  assumes "0 \<le> x" "x < 10" "0 \<le> y" "y < 10"
  shows "(digit_char (nat x) < digit_char (nat y)) = (x < y)"
proof -
  have "nat x < 10" "nat y < 10" using assms by auto
  then have "(digit_char (nat x) < digit_char (nat y)) = (nat x < nat y)"
    by (rule digit_char_less)
  also have "\<dots> = (x < y)" using assms by auto
  finally show ?thesis .
qed

lemma digit_int_eq:
  assumes "0 \<le> x" "x < 10" "0 \<le> y" "y < 10"
  shows "(digit_char (nat x) = digit_char (nat y)) = (x = y)"
proof -
  have "nat x < 10" "nat y < 10" using assms by auto
  then have "(digit_char (nat x) = digit_char (nat y)) = (nat x = nat y)"
    by (rule digit_char_eq)
  also have "\<dots> = (x = y)" using assms by auto
  finally show ?thesis .
qed

lemma lex10:
  fixes q r q' r' :: int
  assumes "0 \<le> r" "r < 10" "0 \<le> r'" "r' < 10"
  shows "(q < q' \<or> q = q' \<and> r < r') = (10 * q + r < 10 * q' + r')"
  using assms by auto

lemma less_by_last_digit:
  fixes a b :: int
  shows "(a < b) = (a div 10 < b div 10 \<or> a div 10 = b div 10 \<and> a mod 10 < b mod 10)"
  using lex10 [of "a mod 10" "b mod 10" "a div 10" "b div 10"] by simp

lemma eq_by_last_digit:
  fixes a b :: int
  shows "(a = b) = (a div 10 = b div 10 \<and> a mod 10 = b mod 10)"
  by (metis mult_div_mod_eq)

lemma pad2_less:
  assumes "0 \<le> a" "a < 100" "0 \<le> b" "b < 100"
  shows "(pad2 a < pad2 b) = (a < b)"
proof -
  have m: "a div 10 mod 10 = a div 10" "b div 10 mod 10 = b div 10" using assms by simp_all
  have r: "0 \<le> a div 10" "a div 10 < 10" "0 \<le> b div 10" "b div 10 < 10"
    "0 \<le> a mod 10" "a mod 10 < 10" "0 \<le> b mod 10" "b mod 10 < 10"
    using assms by simp_all
  have "(pad2 a < pad2 b) =
        (a div 10 < b div 10 \<or> a div 10 = b div 10 \<and> a mod 10 < b mod 10)"
    by (simp only: pad2_def m Cons_less_Cons digit_int_less [OF r(1-4)] digit_int_eq [OF r(1-4)]
          digit_int_less [OF r(5-8)]) simp
  then show ?thesis using less_by_last_digit [of a b] by simp
qed

lemma pad2_eq:
  assumes "0 \<le> a" "a < 100" "0 \<le> b" "b < 100"
  shows "(pad2 a = pad2 b) = (a = b)"
proof -
  have m: "a div 10 mod 10 = a div 10" "b div 10 mod 10 = b div 10" using assms by simp_all
  have r: "0 \<le> a div 10" "a div 10 < 10" "0 \<le> b div 10" "b div 10 < 10"
    "0 \<le> a mod 10" "a mod 10 < 10" "0 \<le> b mod 10" "b mod 10 < 10"
    using assms by simp_all
  have "(pad2 a = pad2 b) = (a div 10 = b div 10 \<and> a mod 10 = b mod 10)"
    by (simp only: pad2_def m list.inject digit_int_eq [OF r(1-4)] digit_int_eq [OF r(5-8)]) simp
  then show ?thesis using eq_by_last_digit [of a b] by simp
qed

lemma pad4_order:
  assumes "0 \<le> a" "a < 10000" "0 \<le> b" "b < 10000"
  shows "(pad4 a < pad4 b) = (a < b)" and "(pad4 a = pad4 b) = (a = b)"
proof -
  have e: "a div 10 div 10 = a div 100" "a div 100 div 10 = a div 1000"
    "b div 10 div 10 = b div 100" "b div 100 div 10 = b div 1000"
    by simp_all
  have m: "a div 1000 mod 10 = a div 1000" "b div 1000 mod 10 = b div 1000"
    using assms by simp_all
  have r3: "0 \<le> a div 1000" "a div 1000 < 10" "0 \<le> b div 1000" "b div 1000 < 10"
    using assms by simp_all
  have r2: "0 \<le> a div 100 mod 10" "a div 100 mod 10 < 10" "0 \<le> b div 100 mod 10"
    "b div 100 mod 10 < 10" by simp_all
  have r1: "0 \<le> a div 10 mod 10" "a div 10 mod 10 < 10" "0 \<le> b div 10 mod 10"
    "b div 10 mod 10 < 10" by simp_all
  have r0: "0 \<le> a mod 10" "a mod 10 < 10" "0 \<le> b mod 10" "b mod 10 < 10" by simp_all
  have L0: "(a < b) = (a div 10 < b div 10 \<or> a div 10 = b div 10 \<and> a mod 10 < b mod 10)"
    by (rule less_by_last_digit)
  have E0: "(a = b) = (a div 10 = b div 10 \<and> a mod 10 = b mod 10)"
    by (rule eq_by_last_digit)
  have L1: "(a div 10 < b div 10) =
            (a div 100 < b div 100 \<or> a div 100 = b div 100 \<and> a div 10 mod 10 < b div 10 mod 10)"
    using less_by_last_digit [of "a div 10" "b div 10"] by (simp only: e)
  have E1: "(a div 10 = b div 10) = (a div 100 = b div 100 \<and> a div 10 mod 10 = b div 10 mod 10)"
    using eq_by_last_digit [of "a div 10" "b div 10"] by (simp only: e)
  have L2: "(a div 100 < b div 100) =
            (a div 1000 < b div 1000 \<or>
             a div 1000 = b div 1000 \<and> a div 100 mod 10 < b div 100 mod 10)"
    using less_by_last_digit [of "a div 100" "b div 100"] by (simp only: e)
  have E2: "(a div 100 = b div 100) =
            (a div 1000 = b div 1000 \<and> a div 100 mod 10 = b div 100 mod 10)"
    using eq_by_last_digit [of "a div 100" "b div 100"] by (simp only: e)
  have "(pad4 a < pad4 b) =
        (a div 1000 < b div 1000 \<or> a div 1000 = b div 1000 \<and>
          (a div 100 mod 10 < b div 100 mod 10 \<or> a div 100 mod 10 = b div 100 mod 10 \<and>
            (a div 10 mod 10 < b div 10 mod 10 \<or> a div 10 mod 10 = b div 10 mod 10 \<and>
              a mod 10 < b mod 10)))"
    by (simp only: pad4_def m Cons_less_Cons
          digit_int_less [OF r3] digit_int_eq [OF r3] digit_int_less [OF r2] digit_int_eq [OF r2]
          digit_int_less [OF r1] digit_int_eq [OF r1] digit_int_less [OF r0]) simp
  also have "\<dots> = (a < b)"
    using L0 L1 E1 L2 E2 by blast
  finally show "(pad4 a < pad4 b) = (a < b)" .
  have "(pad4 a = pad4 b) =
        (a div 1000 = b div 1000 \<and> a div 100 mod 10 = b div 100 mod 10 \<and>
         a div 10 mod 10 = b div 10 mod 10 \<and> a mod 10 = b mod 10)"
    by (simp only: pad4_def m list.inject
          digit_int_eq [OF r3] digit_int_eq [OF r2] digit_int_eq [OF r1] digit_int_eq [OF r0]) simp
  also have "\<dots> = (a = b)"
    using E0 E1 E2 by blast
  finally show "(pad4 a = pad4 b) = (a = b)" .
qed

lemma valid_date_bounds:
  assumes "valid_date d"
  shows "0 \<le> year d" "year d < 10000" "0 \<le> month d" "month d < 100" "0 \<le> day d" "day d < 100"
proof -
  from assms have b: "1 \<le> year d" "year d \<le> 9999" "1 \<le> month d" "month d \<le> 12" "1 \<le> day d"
    "day d \<le> days_in_month (year d) (month d)" by (simp_all add: valid_date_def)
  have "month d = 1 \<or> month d = 2 \<or> month d = 3 \<or> month d = 4 \<or> month d = 5 \<or> month d = 6 \<or>
        month d = 7 \<or> month d = 8 \<or> month d = 9 \<or> month d = 10 \<or> month d = 11 \<or> month d = 12"
    using b(3,4) by arith
  then have "days_in_month (year d) (month d) \<le> 31"
    by (elim disjE) (simp_all add: days_in_month_def DAYS_IN_MONTH_def)
  with b show "0 \<le> year d" "year d < 10000" "0 \<le> month d" "month d < 100" "0 \<le> day d"
    "day d < 100" by simp_all
qed

lemma isoformat_less:
  assumes "valid_date a" "valid_date b"
  shows "(isoformat a < isoformat b) = date_lt a b"
proof -
  note ba = valid_date_bounds [OF assms(1)] and bb = valid_date_bounds [OF assms(2)]
  have y: "(pad4 (year a) < pad4 (year b)) = (year a < year b)"
    "(pad4 (year a) = pad4 (year b)) = (year a = year b)"
    using pad4_order [OF ba(1,2) bb(1,2)] by simp_all
  have mo: "(pad2 (month a) < pad2 (month b)) = (month a < month b)"
    "(pad2 (month a) = pad2 (month b)) = (month a = month b)"
    using pad2_less [OF ba(3,4) bb(3,4)] pad2_eq [OF ba(3,4) bb(3,4)] by simp_all
  have da: "(pad2 (day a) < pad2 (day b)) = (day a < day b)"
    using pad2_less [OF ba(5,6) bb(5,6)] by simp
  have l4: "length (pad4 (year a)) = length (pad4 (year b))" by (simp add: pad4_def)
  have l2: "length (pad2 (month a)) = length (pad2 (month b))" by (simp add: pad2_def)
  have app: "(xs @ us < ys @ vs) = (xs < ys \<or> xs = ys \<and> us < vs)"
    if "length xs = length ys" for xs ys us vs :: string
    using that
  proof (induction xs ys rule: list_induct2)
    case Nil
    show ?case by simp
  next
    case (Cons x xs y ys)
    then show ?case by auto
  qed
  have "(isoformat a < isoformat b) =
        (pad4 (year a) < pad4 (year b) \<or> pad4 (year a) = pad4 (year b) \<and>
          (pad2 (month a) < pad2 (month b) \<or> pad2 (month a) = pad2 (month b) \<and>
             pad2 (day a) < pad2 (day b)))"
    by (simp add: isoformat_def app [OF l4] app [OF l2])
  then show ?thesis by (simp only: y mo da date_lt_def)
qed

lemma isoformat_inj:
  assumes "valid_date a" "valid_date b"
  shows "(isoformat a = isoformat b) = (a = b)"
proof -
  note ba = valid_date_bounds [OF assms(1)] and bb = valid_date_bounds [OF assms(2)]
  have "(isoformat a = isoformat b) =
        (pad4 (year a) = pad4 (year b) \<and> pad2 (month a) = pad2 (month b) \<and>
         pad2 (day a) = pad2 (day b))"
    by (simp add: isoformat_def append_eq_append_conv pad4_def pad2_def)
  also have "\<dots> = (year a = year b \<and> month a = month b \<and> day a = day b)"
    using pad4_order(2) [OF ba(1,2) bb(1,2)] pad2_eq [OF ba(3,4) bb(3,4)]
      pad2_eq [OF ba(5,6) bb(5,6)] by simp
  also have "\<dots> = (a = b)" by auto
  finally show ?thesis .
qed

lemma isoformat_le:
  assumes "valid_date a" "valid_date b"
  shows "(isoformat a \<le> isoformat b) = date_le a b"
  using isoformat_less [OF assms] isoformat_inj [OF assms]
  by (auto simp: date_le_def le_less)

lemma digit_val_int: "0 \<le> x \<Longrightarrow> x < 10 \<Longrightarrow> digit_val (digit_char (nat x)) = Some x"
  using digit_val_digit_char [of "nat x"] by simp

lemma parse_pad2:
  assumes "0 \<le> a" "a < 100"
  shows "parse_digits (pad2 a) 0 = Some a"
proof -
  have m: "a div 10 mod 10 = a div 10" using assms by simp
  have r: "0 \<le> a div 10" "a div 10 < 10" "0 \<le> a mod 10" "a mod 10 < 10"
    using assms by simp_all
  have "parse_digits (pad2 a) 0 = Some ((0 * 10 + a div 10) * 10 + a mod 10)"
    by (simp only: pad2_def m parse_digits.simps digit_val_int [OF r(1,2)]
          digit_val_int [OF r(3,4)] option.case)
  also have "(0 * 10 + a div 10) * 10 + a mod 10 = a" by simp
  finally show ?thesis .
qed

lemma parse_pad4:
  assumes "0 \<le> a" "a < 10000"
  shows "parse_digits (pad4 a) 0 = Some a"
proof -
  have m: "a div 1000 mod 10 = a div 1000" using assms by simp
  have r: "0 \<le> a div 1000" "a div 1000 < 10" "0 \<le> a div 100 mod 10" "a div 100 mod 10 < 10"
    "0 \<le> a div 10 mod 10" "a div 10 mod 10 < 10" "0 \<le> a mod 10" "a mod 10 < 10"
    using assms by simp_all
  have e: "a div 10 div 10 = a div 100" "a div 100 div 10 = a div 1000" by simp_all
  have s3: "0 * 10 + a div 1000 = a div 1000" by simp
  have s2: "a div 1000 * 10 + a div 100 mod 10 = a div 100"
    using div_mult_mod_eq [of "a div 100" 10] by (simp only: e)
  have s1: "a div 100 * 10 + a div 10 mod 10 = a div 10"
    using div_mult_mod_eq [of "a div 10" 10] by (simp only: e)
  have s0: "a div 10 * 10 + a mod 10 = a"
    by (rule div_mult_mod_eq)
  have "parse_digits (pad4 a) 0
        = Some ((((0 * 10 + a div 1000) * 10 + a div 100 mod 10) * 10 + a div 10 mod 10) * 10
                + a mod 10)"
    by (simp only: pad4_def m parse_digits.simps digit_val_int [OF r(1,2)]
          digit_val_int [OF r(3,4)] digit_val_int [OF r(5,6)] digit_val_int [OF r(7,8)]
          option.case)
  then show ?thesis by (simp only: s3 s2 s1 s0)
qed

lemma fromisoformat_isoformat:
  assumes "valid_date d"
  shows "fromisoformat (isoformat d) = Inr d"
proof -
  note b = valid_date_bounds [OF assms]
  have shape: "isoformat d = pad4 (year d) @ CHR ''-'' # pad2 (month d) @ CHR ''-'' # pad2 (day d)"
    by (simp add: isoformat_def)
  have len: "length (isoformat d) = 10" by (simp add: isoformat_def pad4_def pad2_def)
  have c4: "isoformat d ! 4 = CHR ''-''" and c7: "isoformat d ! 7 = CHR ''-''"
    by (simp_all add: isoformat_def pad4_def pad2_def)
  have t4: "take 4 (isoformat d) = pad4 (year d)"
    and t2: "take 2 (drop 5 (isoformat d)) = pad2 (month d)"
    and t8: "drop 8 (isoformat d) = pad2 (day d)"
    by (simp_all add: isoformat_def pad4_def pad2_def)
  have sur: "\<lparr>year = year d, month = month d, day = day d\<rparr> = d" by simp
  show ?thesis
    using assms
    by (simp add: fromisoformat_def len c4 c7 t4 t2 t8 parse_pad4 [OF b(1,2)]
          parse_pad2 [OF b(3,4)] parse_pad2 [OF b(5,6)] sur Let_def)
qed

lemma date_le_not_lt: "date_le a b \<Longrightarrow> \<not> date_lt b a"
  by (auto simp: date_le_def date_lt_def)

lemma in_range_iff:
  assumes "valid_date d1" "valid_date d2" "valid_date d" "start_date r = isoformat d"
  shows "(isoformat d1 \<le> start_date r \<and> start_date r \<le> isoformat d2)
         = (case fromisoformat (start_date r) of
              Inl e \<Rightarrow> False
            | Inr x \<Rightarrow> date_le d1 x \<and> date_le x d2)"
  using assms
  by (simp add: isoformat_le fromisoformat_isoformat)

text \<open>
  Claim C3. On a store whose dates are ISO texts of dates, the range query between the ISO
  texts of two dates returns exactly the rows whose date lies between the two, ends included,
  in the order of the store; and the comparison of two ISO texts as strings agrees with the
  comparison of the two dates.
\<close>

theorem date_range_query_correct:
  assumes "valid_date d1" and "valid_date d2"
    and "\<forall>r\<in>set st. \<exists>d. valid_date d \<and> start_date r = isoformat d"
  shows "query_by_date_range (isoformat d1) (isoformat d2) st
           = filter (\<lambda>r. case fromisoformat (start_date r) of
                            Inl e \<Rightarrow> False
                          | Inr d \<Rightarrow> date_le d1 d \<and> date_le d d2) st \<and>
         (\<forall>a b. valid_date a \<and> valid_date b \<longrightarrow> (isoformat a \<le> isoformat b) = date_le a b)"
proof -
  have "filter (\<lambda>r. isoformat d1 \<le> start_date r \<and> start_date r \<le> isoformat d2) st
        = filter (\<lambda>r. case fromisoformat (start_date r) of
                            Inl e \<Rightarrow> False
                          | Inr d \<Rightarrow> date_le d1 d \<and> date_le d d2) st"
  proof (rule filter_cong [OF refl])
    fix r assume "r \<in> set st"
    with assms(3) obtain d where d: "valid_date d" "start_date r = isoformat d" by blast
    show "(isoformat d1 \<le> start_date r \<and> start_date r \<le> isoformat d2)
          = (case fromisoformat (start_date r) of
               Inl e \<Rightarrow> False
             | Inr d \<Rightarrow> date_le d1 d \<and> date_le d d2)"
      by (rule in_range_iff [OF assms(1,2) d])
  qed
  then show ?thesis
    by (simp add: query_by_date_range_def isoformat_le)
qed

lemma valid_may_9: "valid_date may_9"
  by (simp add: may_9_def valid_date_def days_in_month_def DAYS_IN_MONTH_def)

lemma valid_may_12: "valid_date may_12"
  by (simp add: may_12_def valid_date_def days_in_month_def DAYS_IN_MONTH_def)

lemma iso_store_example:
  "\<forall>r\<in>set (two_episodes @ [next_week_episode]). \<exists>d. valid_date d \<and> start_date r = isoformat d"
proof -
  have v10: "valid_date \<lparr>year = 2024, month = 5, day = 10\<rparr>"
    by (simp add: valid_date_def days_in_month_def DAYS_IN_MONTH_def)
  have v17: "valid_date \<lparr>year = 2024, month = 5, day = 17\<rparr>"
    by (simp add: valid_date_def days_in_month_def DAYS_IN_MONTH_def)
  have i10: "isoformat \<lparr>year = 2024, month = 5, day = 10\<rparr> = ''2024-05-10''"
    by (simp add: isoformat_def pad2_def pad4_def digit_char_def)
  have i17: "isoformat \<lparr>year = 2024, month = 5, day = 17\<rparr> = ''2024-05-17''"
    by (simp add: isoformat_def pad2_def pad4_def digit_char_def)
  have a: "\<exists>d. valid_date d \<and> ''2024-05-10'' = isoformat d" using v10 i10 by metis
  have b: "\<exists>d. valid_date d \<and> ''2024-05-17'' = isoformat d" using v17 i17 by metis
  show ?thesis using a b by (simp add: two_episodes_def next_week_episode_def)
qed

theorem date_range_query_correct_witness:
  "valid_date may_9 \<and> valid_date may_12 \<and>
   isoformat may_9 = ''2024-05-09'' \<and> isoformat may_12 = ''2024-05-12'' \<and>
   query_by_date_range ''2024-05-09'' ''2024-05-12'' (two_episodes @ [next_week_episode])
     = two_episodes \<and>
   filter (\<lambda>r. case fromisoformat (start_date r) of
                  Inl e \<Rightarrow> False
                | Inr d \<Rightarrow> date_le may_9 d \<and> date_le d may_12)
     (two_episodes @ [next_week_episode]) = two_episodes"
proof -
  have i9: "isoformat may_9 = ''2024-05-09''" and i12: "isoformat may_12 = ''2024-05-12''"
    by (simp_all add: may_9_def may_12_def isoformat_def pad2_def pad4_def digit_char_def)
  have q: "query_by_date_range ''2024-05-09'' ''2024-05-12'' (two_episodes @ [next_week_episode])
     = two_episodes"
    by (simp add: query_by_date_range_def two_episodes_def next_week_episode_def)
  note t = date_range_query_correct [OF valid_may_9 valid_may_12 iso_store_example]
  show ?thesis using t q i9 i12 valid_may_9 valid_may_12 by simp
qed

lemma parse_event_in_range:
  assumes "valid_date today" "valid_date d" "start_date r = isoformat d"
    "isoformat today \<le> start_date r"
  shows "parse_event today r = parse_event_unfiltered r" and "\<not> date_lt d today"
proof -
  have "date_le today d" using assms isoformat_le [of today d] by simp
  then show nlt: "\<not> date_lt d today" by (rule date_le_not_lt)
  show "parse_event today r = parse_event_unfiltered r"
    using assms(2,3) nlt
    by (simp add: parse_event_def parse_event_unfiltered_def fromisoformat_isoformat)
qed

lemma organize_without_filter:
  "\<forall>r\<in>set rows. parse_event today r = parse_event_unfiltered r \<Longrightarrow>
   organize today rows ws s = organize_unfiltered rows ws s"
proof (induction rows arbitrary: ws s)
  case Nil
  show ?case by simp
next
  case (Cons r rows)
  then have h: "parse_event today r = parse_event_unfiltered r"
    and rest: "\<forall>r\<in>set rows. parse_event today r = parse_event_unfiltered r" by simp_all
  show ?case using h Cons.IH [OF rest] by (simp split: option.splits)
qed

text \<open>
  Claim C10. On a store whose dates are ISO texts of dates, no row that the range query from
  today returns has a date before today, so the skip of line 163 is never taken, and the
  grouped view is the one that the loop without that skip builds.
\<close>

theorem date_filter_redundant:
  assumes "valid_date today"
    and "\<forall>r\<in>set st. \<exists>d. valid_date d \<and> start_date r = isoformat d"
  shows "weekly_view today st = weekly_view_unfiltered today st \<and>
         (\<forall>hi. \<forall>r\<in>set (query_by_date_range (isoformat today) hi st).
            \<forall>d. fromisoformat (start_date r) = Inr d \<longrightarrow> \<not> date_lt d today)"
proof -
  have inr: "parse_event today r = parse_event_unfiltered r \<and>
             (\<forall>d. fromisoformat (start_date r) = Inr d \<longrightarrow> \<not> date_lt d today)"
    if "r \<in> set (query_by_date_range (isoformat today) hi st)" for r hi
  proof -
    from that have m: "r \<in> set st" and lo: "isoformat today \<le> start_date r"
      by (simp_all add: query_by_date_range_def)
    from assms(2) m obtain d where d: "valid_date d" "start_date r = isoformat d" by blast
    have "fromisoformat (start_date r) = Inr d" using d by (simp add: fromisoformat_isoformat)
    then show ?thesis using parse_event_in_range [OF assms(1) d lo] by simp
  qed
  have "organize today (query_by_date_range (isoformat today) hi st) [] None
        = organize_unfiltered (query_by_date_range (isoformat today) hi st) [] None" for hi
    by (rule organize_without_filter) (use inr in blast)
  then have "weekly_view today st = weekly_view_unfiltered today st"
    by (simp add: weekly_view_def weekly_view_unfiltered_def split: sum.splits)
  then show ?thesis using inr by blast
qed

theorem date_filter_redundant_witness:
  "valid_date may_9 \<and>
   weekly_view_unfiltered may_9 (two_episodes @ [next_week_episode])
     = Inr ([(\<lparr>year = 2024, month = 5, day = 10\<rparr>, [(''Show A'', [''05'', ''06''])])], Some ''2'') \<and>
   weekly_view may_9 (two_episodes @ [next_week_episode])
     = Inr ([(\<lparr>year = 2024, month = 5, day = 10\<rparr>, [(''Show A'', [''05'', ''06''])])], Some ''2'')"
proof -
  have u: "weekly_view_unfiltered may_9 (two_episodes @ [next_week_episode])
     = Inr ([(\<lparr>year = 2024, month = 5, day = 10\<rparr>, [(''Show A'', [''05'', ''06''])])], Some ''2'')"
    by code_simp
  note t = date_filter_redundant [OF valid_may_9 iso_store_example]
  show ?thesis using t u valid_may_9 by simp
qed

section \<open>The grouped view of the week\<close>

lemma map_of_append_episode:
  "map_of (append_episode t ep sh) t'
   = (if t' = t then Some ((case map_of sh t of None \<Rightarrow> [] | Some eps \<Rightarrow> eps) @ [ep])
      else map_of sh t')"
  by (induction sh) auto

lemma map_of_add_episode:
  "map_of (add_episode d t ep ws) d'
   = (if d' = d then Some (append_episode t ep (case map_of ws d of None \<Rightarrow> [] | Some sh \<Rightarrow> sh))
      else map_of ws d')"
  by (induction ws) auto

lemma episodes_of_add_episode:
  "episodes_of (add_episode d t ep ws) d' t'
   = episodes_of ws d' t' @ (if d' = d \<and> t' = t then [ep] else [])"
  by (auto simp: episodes_of_def map_of_add_episode map_of_append_episode split: option.splits)

lemma organize_episodes:
  "episodes_of (fst (organize today rows ws s)) d t
   = episodes_of ws d t
     @ concat (map (\<lambda>r. case parse_event today r of
                           None \<Rightarrow> []
                         | Some (d', t', s', ep) \<Rightarrow> if d' = d \<and> t' = t then [ep] else []) rows)"
proof (induction rows arbitrary: ws s)
  case Nil
  show ?case by simp
next
  case (Cons r rows)
  show ?case
  proof (cases "parse_event today r")
    case None
    then show ?thesis using Cons.IH by simp
  next
    case (Some p)
    obtain d' t' s' ep where p: "p = (d', t', s', ep)" by (cases p) auto
    show ?thesis using Some p Cons.IH by (simp add: episodes_of_add_episode)
  qed
qed

lemma concat_singletons:
  "concat (map (\<lambda>r. if P r then [f r] else []) rows) = map f (filter P rows)"
  by (induction rows) auto

lemma parse_event_accepted:
  assumes "valid_date today" "valid_date d'" "start_date r = isoformat d'"
    "isoformat today \<le> start_date r" "valid_date d"
  shows "(case parse_event today r of
            None \<Rightarrow> []
          | Some (x, t', s', ep) \<Rightarrow> if x = d \<and> t' = t then [ep] else [])
         = (if start_date r = isoformat d \<and> length (str_split '': '' (summary r)) = 2 \<and>
               length (str_split ''x'' (str_split '': '' (summary r) ! 1)) = 2 \<and>
               str_split '': '' (summary r) ! 0 = t
            then [str_split ''x'' (str_split '': '' (summary r) ! 1) ! 1] else [])"
proof -
  have nlt: "\<not> date_lt d' today"
    using parse_event_in_range(2) [OF assms(1,2,3,4)] .
  have eq: "(isoformat d' = isoformat d) = (d' = d)"
    by (rule isoformat_inj [OF assms(2,5)])
  show ?thesis
    using nlt assms(2,3)
    by (simp add: parse_event_def fromisoformat_isoformat eq Let_def)
qed

text \<open>
  Claim C5, amended. On a store whose dates are ISO texts of dates, the episodes that the
  grouped view lists under a date and a title are those of the rows of the weekly range with
  that date whose summary, split at every occurrence of the separator, has exactly two parts,
  the first being the title and the second, split on the letter x, having exactly two tokens;
  they appear once per such row, in the order of the rows. No other row is in the view.
\<close>

theorem weekly_view_membership:
  assumes "valid_date today" and "next_sunday today = Inr sunday"
    and "\<forall>r\<in>set st. \<exists>d. valid_date d \<and> start_date r = isoformat d"
    and "valid_date d"
  shows "\<exists>view. weekly_view today st = Inr view \<and>
           episodes_of (fst view) d t
           = map (\<lambda>r. str_split ''x'' (str_split '': '' (summary r) ! 1) ! 1)
               (filter (\<lambda>r. start_date r = isoformat d \<and>
                             length (str_split '': '' (summary r)) = 2 \<and>
                             length (str_split ''x'' (str_split '': '' (summary r) ! 1)) = 2 \<and>
                             str_split '': '' (summary r) ! 0 = t)
                  (query_by_date_range (isoformat today) (isoformat sunday) st))"
proof -
  let ?rows = "query_by_date_range (isoformat today) (isoformat sunday) st"
  let ?ok = "\<lambda>r. start_date r = isoformat d \<and>
                             length (str_split '': '' (summary r)) = 2 \<and>
                             length (str_split ''x'' (str_split '': '' (summary r) ! 1)) = 2 \<and>
                             str_split '': '' (summary r) ! 0 = t"
  let ?ep = "\<lambda>r. str_split ''x'' (str_split '': '' (summary r) ! 1) ! 1"
  have view: "weekly_view today st = Inr (organize today ?rows [] None)"
    using assms(2) by (simp add: weekly_view_def)
  have "map (\<lambda>r. case parse_event today r of
                     None \<Rightarrow> []
                   | Some (x, t', s', ep) \<Rightarrow> if x = d \<and> t' = t then [ep] else []) ?rows
        = map (\<lambda>r. if ?ok r then [?ep r] else []) ?rows"
  proof (rule map_cong [OF refl])
    fix r assume "r \<in> set ?rows"
    then have m: "r \<in> set st" and lo: "isoformat today \<le> start_date r"
      by (simp_all add: query_by_date_range_def)
    from assms(3) m obtain d' where d': "valid_date d'" "start_date r = isoformat d'" by blast
    show "(case parse_event today r of
             None \<Rightarrow> []
           | Some (x, t', s', ep) \<Rightarrow> if x = d \<and> t' = t then [ep] else [])
          = (if ?ok r then [?ep r] else [])"
      by (rule parse_event_accepted [OF assms(1) d' lo assms(4)])
  qed
  then have "episodes_of (fst (organize today ?rows [] None)) d t = map ?ep (filter ?ok ?rows)"
    by (simp only: organize_episodes concat_singletons) (simp add: episodes_of_def)
  then show ?thesis using view by simp
qed

lemma valid_may_10: "valid_date may_10"
  by (simp add: may_10_def valid_date_def days_in_month_def DAYS_IN_MONTH_def)

lemma iso_store_mixed:
  "\<forall>r\<in>set (two_episodes @ [two_separators, malformed_entry]).
     \<exists>d. valid_date d \<and> start_date r = isoformat d"
proof -
  have "isoformat may_10 = ''2024-05-10''"
    by (simp add: may_10_def isoformat_def pad2_def pad4_def digit_char_def)
  then have "\<exists>d. valid_date d \<and> ''2024-05-10'' = isoformat d"
    using valid_may_10 by metis
  then show ?thesis
    by (simp add: two_episodes_def two_separators_def malformed_entry_def)
qed

theorem weekly_view_membership_witness:
  "valid_date may_9 \<and> next_sunday may_9 = Inr may_12 \<and> valid_date may_10 \<and>
   query_by_date_range (isoformat may_9) (isoformat may_12)
       (two_episodes @ [two_separators, malformed_entry])
     = two_episodes @ [two_separators, malformed_entry] \<and>
   weekly_view may_9 (two_episodes @ [two_separators, malformed_entry])
     = Inr ([(may_10, [(''Show A'', [''05'', ''06''])])], Some ''2'') \<and>
   episodes_of [(may_10, [(''Show A'', [''05'', ''06''])])] may_10 ''Show A'' = [''05'', ''06'']"
proof -
  have ns: "next_sunday may_9 = Inr may_12" by code_simp
  have q: "query_by_date_range (isoformat may_9) (isoformat may_12)
       (two_episodes @ [two_separators, malformed_entry])
     = two_episodes @ [two_separators, malformed_entry]" by code_simp
  have wv: "weekly_view may_9 (two_episodes @ [two_separators, malformed_entry])
     = Inr ([(may_10, [(''Show A'', [''05'', ''06''])])], Some ''2'')" by code_simp
  have ep: "episodes_of [(may_10, [(''Show A'', [''05'', ''06''])])] may_10 ''Show A''
     = [''05'', ''06'']" by (simp add: episodes_of_def)
  note t = weekly_view_membership [OF valid_may_9 ns iso_store_mixed valid_may_10, of "''Show A''"]
  show ?thesis using t ns q wv ep valid_may_9 valid_may_10 by simp
qed

text \<open>
  Claim C5, as the specification states it, splits the summary once. A summary with two
  separators then has two parts, a title and a descriptor that splits on x into two tokens, so
  the view should include the row; the program splits at both separators, gets three parts and
  leaves the row out.
\<close>

theorem split_once_counterexample:
  "spec_weekly_includes (summary two_separators) \<and>
   query_by_date_range (isoformat may_9) (isoformat may_12) [two_separators] = [two_separators] \<and>
   str_split '': '' (summary two_separators) = [''Show A'', ''Part 2'', ''1x02''] \<and>
   weekly_view may_9 [two_separators] = Inr ([], None)"
  by code_simp

section \<open>Ordinals of dates and the end of the week\<close>

lemma div_unique_int:
  fixes p q r k :: int
  assumes "p = k * q + r" "0 \<le> r" "r < k"
  shows "p div k = q" and "p mod k = r"
  using assms by (simp_all add: div_pos_pos_trivial)

lemma dby_closed:
  fixes a b c e :: int
  assumes "0 \<le> b" "b \<le> 3" "0 \<le> c" "c \<le> 24" "0 \<le> e" "e \<le> 3"
  shows "days_before_year (400 * a + 100 * b + 4 * c + e + 1)
         = 146097 * a + 36524 * b + 1461 * c + 365 * e"
proof -
  let ?p = "400 * a + 100 * b + 4 * c + e"
  have d4: "?p div 4 = 100 * a + 25 * b + c"
    by (rule div_unique_int(1) [where r = e]) (use assms in simp_all)
  have d100: "?p div 100 = 4 * a + b"
    by (rule div_unique_int(1) [where r = "4 * c + e"]) (use assms in simp_all)
  have d400: "?p div 400 = a"
    by (rule div_unique_int(1) [where r = "100 * b + 4 * c + e"]) (use assms in simp_all)
  have "days_before_year (?p + 1) = ?p * 365 + ?p div 4 - ?p div 100 + ?p div 400"
    by (simp add: days_before_year_def Let_def)
  also have "\<dots> = 146097 * a + 36524 * b + 1461 * c + 365 * e"
    by (simp only: d4 d100 d400) simp
  finally show ?thesis .
qed

lemma is_leap_closed:
  fixes a b c e :: int
  assumes "0 \<le> b" "b \<le> 3" "0 \<le> c" "c \<le> 24" "0 \<le> e" "e \<le> 3"
  shows "is_leap (400 * a + 100 * b + 4 * c + e + 1) = (e = 3 \<and> (c \<noteq> 24 \<or> b = 3))"
proof -
  let ?y = "400 * a + 100 * b + 4 * c + e + 1"
  show ?thesis
  proof (cases "e = 3")
    case False
    have "?y mod 4 = e + 1"
      by (rule div_unique_int(2) [where q = "100 * a + 25 * b + c"]) (use assms False in simp_all)
    then have "?y mod 4 \<noteq> 0" using assms by simp
    then show ?thesis using False by (simp add: is_leap_def)
  next
    case True
    have m4: "?y mod 4 = 0"
      by (rule div_unique_int(2) [where q = "100 * a + 25 * b + c + 1"]) (use True in simp_all)
    show ?thesis
    proof (cases "c = 24")
      case False
      have "?y mod 100 = 4 * c + 4"
        by (rule div_unique_int(2) [where q = "4 * a + b"]) (use assms True False in simp_all)
      then have "?y mod 100 \<noteq> 0" using assms by simp
      then show ?thesis using True False m4 by (simp add: is_leap_def)
    next
      case c: True
      have m100: "?y mod 100 = 0"
        by (rule div_unique_int(2) [where q = "4 * a + b + 1"]) (use True c in simp_all)
      show ?thesis
      proof (cases "b = 3")
        case True
        have "?y mod 400 = 0"
          by (rule div_unique_int(2) [where q = "a + 1"]) (use True c \<open>e = 3\<close> in simp_all)
        then show ?thesis using True c \<open>e = 3\<close> m4 by (simp add: is_leap_def)
      next
        case False
        have "?y mod 400 = 100 * b + 100"
          by (rule div_unique_int(2) [where q = a]) (use assms False c \<open>e = 3\<close> in simp_all)
        then have "?y mod 400 \<noteq> 0" using assms by simp
        then show ?thesis using False c \<open>e = 3\<close> m4 m100 by (simp add: is_leap_def)
      qed
    qed
  qed
qed

lemma month_part_all:
  "\<forall>r\<in>set [0..364]. \<forall>L\<in>set [False, True].
     (let m = (r + 50) div 32;
          preceding = DAYS_BEFORE_MONTH ! nat (m - 1) + (if m > 2 \<and> L then 1 else 0);
          md = (if preceding > r
                then (m - 1, r - (preceding - (DAYS_IN_MONTH ! nat (m - 2)
                                               + (if m - 1 = 2 \<and> L then 1 else 0))) + 1)
                else (m, r - preceding + 1))
      in 1 \<le> fst md \<and> fst md \<le> 12 \<and> 1 \<le> snd md \<and>
         snd md \<le> (if fst md = 2 \<and> L then 29 else DAYS_IN_MONTH ! nat (fst md - 1)) \<and>
         DAYS_BEFORE_MONTH ! nat (fst md - 1) + (if fst md > 2 \<and> L then 1 else 0) + snd md
           = r + 1)"
  by code_simp

lemma month_part:
  fixes r :: int and L :: bool
  assumes "0 \<le> r" "r < 365"
  defines "m \<equiv> (r + 50) div 32"
  defines "preceding \<equiv> DAYS_BEFORE_MONTH ! nat (m - 1) + (if m > 2 \<and> L then 1 else 0)"
  defines "md \<equiv> (if preceding > r
                then (m - 1, r - (preceding - (DAYS_IN_MONTH ! nat (m - 2)
                                               + (if m - 1 = 2 \<and> L then 1 else 0))) + 1)
                else (m, r - preceding + 1))"
  shows "1 \<le> fst md" "fst md \<le> 12" "1 \<le> snd md"
    "snd md \<le> (if fst md = 2 \<and> L then 29 else DAYS_IN_MONTH ! nat (fst md - 1))"
    "DAYS_BEFORE_MONTH ! nat (fst md - 1) + (if fst md > 2 \<and> L then 1 else 0) + snd md = r + 1"
proof -
  have "r \<in> set [0..364]" using assms(1,2) by simp
  moreover have "L \<in> set [False, True]" by auto
  ultimately have
    "(let m = (r + 50) div 32;
          preceding = DAYS_BEFORE_MONTH ! nat (m - 1) + (if m > 2 \<and> L then 1 else 0);
          md = (if preceding > r
                then (m - 1, r - (preceding - (DAYS_IN_MONTH ! nat (m - 2)
                                               + (if m - 1 = 2 \<and> L then 1 else 0))) + 1)
                else (m, r - preceding + 1))
      in 1 \<le> fst md \<and> fst md \<le> 12 \<and> 1 \<le> snd md \<and>
         snd md \<le> (if fst md = 2 \<and> L then 29 else DAYS_IN_MONTH ! nat (fst md - 1)) \<and>
         DAYS_BEFORE_MONTH ! nat (fst md - 1) + (if fst md > 2 \<and> L then 1 else 0) + snd md
           = r + 1)"
    using month_part_all by blast
  then have all: "1 \<le> fst md \<and> fst md \<le> 12 \<and> 1 \<le> snd md \<and>
         snd md \<le> (if fst md = 2 \<and> L then 29 else DAYS_IN_MONTH ! nat (fst md - 1)) \<and>
         DAYS_BEFORE_MONTH ! nat (fst md - 1) + (if fst md > 2 \<and> L then 1 else 0) + snd md
           = r + 1"
    unfolding Let_def md_def preceding_def m_def .
  from all show "1 \<le> fst md" by blast
  from all show "fst md \<le> 12" by blast
  from all show "1 \<le> snd md" by blast
  from all show "snd md \<le> (if fst md = 2 \<and> L then 29 else DAYS_IN_MONTH ! nat (fst md - 1))"
    by blast
  from all show "DAYS_BEFORE_MONTH ! nat (fst md - 1) + (if fst md > 2 \<and> L then 1 else 0)
    + snd md = r + 1" by blast
qed

lemma fromordinal_unfold:
  fixes n :: int
  defines "n0 \<equiv> n - 1"
  defines "a \<equiv> n0 div 146097" and "r1 \<equiv> n0 mod 146097"
  defines "b \<equiv> r1 div 36524" and "r2 \<equiv> r1 mod 36524"
  defines "c \<equiv> r2 div 1461" and "r3 \<equiv> r2 mod 1461"
  defines "e \<equiv> r3 div 365" and "r4 \<equiv> r3 mod 365"
  defines "Y \<equiv> 400 * a + 100 * b + 4 * c + e + 1"
  defines "L \<equiv> (e = 3 \<and> (c \<noteq> 24 \<or> b = 3))"
  defines "m \<equiv> (r4 + 50) div 32"
  defines "preceding \<equiv> DAYS_BEFORE_MONTH ! nat (m - 1) + (if m > 2 \<and> L then 1 else 0)"
  defines "md \<equiv> (if preceding > r4
                then (m - 1, r4 - (preceding - (DAYS_IN_MONTH ! nat (m - 2)
                                               + (if m - 1 = 2 \<and> L then 1 else 0))) + 1)
                else (m, r4 - preceding + 1))"
  shows "fromordinal n
         = (if e = 4 \<or> b = 4 then \<lparr>year = Y - 1, month = 12, day = 31\<rparr>
            else \<lparr>year = Y, month = fst md, day = snd md\<rparr>)"
proof -
  have y: "a * 400 + 1 + b * 100 + c * 4 + e = Y" by (simp add: Y_def)
  show ?thesis
    unfolding fromordinal_def Let_def
    unfolding n0_def [symmetric]
    unfolding a_def [symmetric] r1_def [symmetric]
    unfolding b_def [symmetric] r2_def [symmetric]
    unfolding c_def [symmetric] r3_def [symmetric]
    unfolding e_def [symmetric] r4_def [symmetric]
    unfolding y L_def [symmetric] m_def [symmetric]
    unfolding preceding_def [symmetric]
    unfolding md_def
    by (simp split: if_splits)
qed

lemma december_31:
  fixes a b c :: int
  assumes "0 \<le> b" "b \<le> 3" "0 \<le> c" "c \<le> 24" "c \<noteq> 24 \<or> b = 3"
  shows "toordinal \<lparr>year = 400 * a + 100 * b + 4 * c + 4, month = 12, day = 31\<rparr>
         = 146097 * a + 36524 * b + 1461 * c + 1461"
    and "days_in_month (400 * a + 100 * b + 4 * c + 4) 12 = 31"
proof -
  have y: "400 * a + 100 * b + 4 * c + 4 = 400 * a + 100 * b + 4 * c + 3 + 1" by simp
  have dby: "days_before_year (400 * a + 100 * b + 4 * c + 4)
             = 146097 * a + 36524 * b + 1461 * c + 365 * 3"
    unfolding y by (rule dby_closed) (use assms in simp_all)
  have leap: "is_leap (400 * a + 100 * b + 4 * c + 4)"
    unfolding y using is_leap_closed [of b c 3 a] assms by simp
  show "toordinal \<lparr>year = 400 * a + 100 * b + 4 * c + 4, month = 12, day = 31\<rparr>
         = 146097 * a + 36524 * b + 1461 * c + 1461"
    using dby leap by (simp add: toordinal_def days_before_month_def DAYS_BEFORE_MONTH_def)
  show "days_in_month (400 * a + 100 * b + 4 * c + 4) 12 = 31"
    by (simp add: days_in_month_def DAYS_IN_MONTH_def)
qed

lemma fromordinal_props:
  fixes n :: int
  assumes "1 \<le> n"
  shows "toordinal (fromordinal n) = n"
    and "1 \<le> month (fromordinal n)" and "month (fromordinal n) \<le> 12"
    and "1 \<le> day (fromordinal n)"
    and "day (fromordinal n) \<le> days_in_month (year (fromordinal n)) (month (fromordinal n))"
    and "1 \<le> year (fromordinal n)"
    and "n \<le> MAXORDINAL \<Longrightarrow> year (fromordinal n) \<le> 9999"
proof -
  define n0 where "n0 = n - 1"
  define a where "a = n0 div 146097"
  define r1 where "r1 = n0 mod 146097"
  define b where "b = r1 div 36524"
  define r2 where "r2 = r1 mod 36524"
  define c where "c = r2 div 1461"
  define r3 where "r3 = r2 mod 1461"
  define e where "e = r3 div 365"
  define r4 where "r4 = r3 mod 365"
  define Y where "Y = 400 * a + 100 * b + 4 * c + e + 1"
  define L where "L = (e = 3 \<and> (c \<noteq> 24 \<or> b = 3))"
  define m where "m = (r4 + 50) div 32"
  define preceding where
    "preceding = DAYS_BEFORE_MONTH ! nat (m - 1) + (if m > 2 \<and> L then 1 else 0)"
  define md where
    "md = (if preceding > r4
           then (m - 1, r4 - (preceding - (DAYS_IN_MONTH ! nat (m - 2)
                                            + (if m - 1 = 2 \<and> L then 1 else 0))) + 1)
           else (m, r4 - preceding + 1))"
  have fo: "fromordinal n
         = (if e = 4 \<or> b = 4 then \<lparr>year = Y - 1, month = 12, day = 31\<rparr>
            else \<lparr>year = Y, month = fst md, day = snd md\<rparr>)"
    unfolding md_def preceding_def m_def L_def Y_def r4_def e_def r3_def c_def r2_def b_def
      r1_def a_def n0_def
    by (rule fromordinal_unfold)
  have n0: "0 \<le> n0" using assms by (simp add: n0_def)
  have d1: "n0 = 146097 * a + r1" "0 \<le> r1" "r1 < 146097"
    by (simp_all add: a_def r1_def)
  have d2: "r1 = 36524 * b + r2" "0 \<le> r2" "r2 < 36524"
    by (simp_all add: b_def r2_def)
  have d3: "r2 = 1461 * c + r3" "0 \<le> r3" "r3 < 1461"
    by (simp_all add: c_def r3_def)
  have d4: "r3 = 365 * e + r4" "0 \<le> r4" "r4 < 365"
    by (simp_all add: e_def r4_def)
  have a0: "0 \<le> a" using n0 by (simp add: a_def pos_imp_zdiv_nonneg_iff)
  have b0: "0 \<le> b" using d1(2) by (simp add: b_def pos_imp_zdiv_nonneg_iff)
  have c0: "0 \<le> c" using d2(2) by (simp add: c_def pos_imp_zdiv_nonneg_iff)
  have e0: "0 \<le> e" using d3(2) by (simp add: e_def pos_imp_zdiv_nonneg_iff)
  have b4: "b \<le> 4" using d1(3) d2(1,2) by linarith
  have c24: "c \<le> 24" using d2(3) d3(1,2) by linarith
  have e4: "e \<le> 4" using d3(3) d4(1,2) by linarith
  have sum: "n = 146097 * a + 36524 * b + 1461 * c + 365 * e + r4 + 1"
    using d1(1) d2(1) d3(1) d4(1) by (simp add: n0_def)
  have all: "toordinal (fromordinal n) = n \<and>
    1 \<le> month (fromordinal n) \<and> month (fromordinal n) \<le> 12 \<and> 1 \<le> day (fromordinal n) \<and>
    day (fromordinal n) \<le> days_in_month (year (fromordinal n)) (month (fromordinal n)) \<and>
    1 \<le> year (fromordinal n) \<and> (n \<le> MAXORDINAL \<longrightarrow> year (fromordinal n) \<le> 9999)"
  proof (cases "b = 4")
    case True
    have "r2 = 0" using True d1(3) d2(1,2) by linarith
    then have z: "c = 0" "r3 = 0" by (simp_all add: c_def r3_def)
    then have z': "e = 0" "r4 = 0" by (simp_all add: e_def r4_def)
    have f: "fromordinal n = \<lparr>year = 400 * a + 100 * 3 + 4 * 24 + 4, month = 12, day = 31\<rparr>"
      using fo True z z' by (simp add: Y_def)
    have t: "toordinal (fromordinal n) = n"
      unfolding f using december_31(1) [of 3 24 a] sum True z z' by simp
    have dm: "days_in_month (400 * a + 100 * 3 + 4 * 24 + 4) 12 = 31"
      by (rule december_31(2)) simp_all
    have yb: "400 * a + 100 * 3 + 4 * 24 + 4 \<le> 9999" if "n \<le> MAXORDINAL"
      using that sum True z z' by (simp add: MAXORDINAL_def)
    show ?thesis
      using t dm yb a0 unfolding f by simp
  next
    case False
    then have b3: "b \<le> 3" using b4 by simp
    show ?thesis
    proof (cases "e = 4")
      case True
      have r40: "r4 = 0" using True d3(3) d4(1,2) by linarith
      have c23: "c \<le> 23" using True d2(3) d3(1) d4(1,2) by linarith
      have f: "fromordinal n = \<lparr>year = 400 * a + 100 * b + 4 * c + 4, month = 12, day = 31\<rparr>"
        using fo True by (simp add: Y_def)
      have t: "toordinal (fromordinal n) = n"
        unfolding f using december_31(1) [of b c a] sum True r40 b0 b3 c0 c23 by simp
      have dm: "days_in_month (400 * a + 100 * b + 4 * c + 4) 12 = 31"
        by (rule december_31(2)) (use b0 b3 c0 c23 in simp_all)
      have yb: "400 * a + 100 * b + 4 * c + 4 \<le> 9999" if "n \<le> MAXORDINAL"
      proof -
        have "a \<le> 24" using that sum True r40 b0 c0 by (simp add: MAXORDINAL_def)
        then show ?thesis using b3 c23 by simp
      qed
      show ?thesis
        using t dm yb a0 b0 c0 unfolding f by simp
    next
      case e_ne: False
      then have e3: "e \<le> 3" using e4 by simp
      have f: "fromordinal n = \<lparr>year = Y, month = fst md, day = snd md\<rparr>"
        using fo False e_ne by simp
      have dby: "days_before_year Y = 146097 * a + 36524 * b + 1461 * c + 365 * e"
        unfolding Y_def by (rule dby_closed) (use b0 b3 c0 c24 e0 e3 in simp_all)
      have leap: "is_leap Y = L"
        unfolding Y_def L_def by (rule is_leap_closed) (use b0 b3 c0 c24 e0 e3 in simp_all)
      note mp = month_part [OF d4(2,3), of L, folded m_def, folded preceding_def, folded md_def]
      have t: "toordinal (fromordinal n) = n"
        unfolding f using dby leap mp(5) sum
        by (simp add: toordinal_def days_before_month_def)
      have dm: "snd md \<le> days_in_month Y (fst md)"
        using mp(4) leap by (simp add: days_in_month_def)
      have y1: "1 \<le> Y" using a0 b0 c0 e0 by (simp add: Y_def)
      have yb: "Y \<le> 9999" if "n \<le> MAXORDINAL"
      proof -
        have le: "146097 * a + 36524 * b + 1461 * c + 365 * e + r4 \<le> 3652058"
          using that sum by (simp add: MAXORDINAL_def)
        have a24: "a \<le> 24" using le b0 c0 e0 d4(2) by linarith
        show ?thesis
        proof (cases "a = 24 \<and> b = 3 \<and> c = 24")
          case True
          then have "e \<le> 2" using le d4(2) by linarith
          then show ?thesis using True by (simp add: Y_def)
        next
          case False
          then have "400 * a + 100 * b + 4 * c \<le> 9992" using a24 b3 c24 by linarith
          then show ?thesis using e3 by (simp add: Y_def)
        qed
      qed
      show ?thesis
        using t dm y1 yb mp(1,2,3) unfolding f by simp
    qed
  qed
  from all show "toordinal (fromordinal n) = n" by blast
  from all show "1 \<le> month (fromordinal n)" by blast
  from all show "month (fromordinal n) \<le> 12" by blast
  from all show "1 \<le> day (fromordinal n)" by blast
  from all show
    "day (fromordinal n) \<le> days_in_month (year (fromordinal n)) (month (fromordinal n))"
    by blast
  from all show "1 \<le> year (fromordinal n)" by blast
  from all show "n \<le> MAXORDINAL \<Longrightarrow> year (fromordinal n) \<le> 9999" by blast
qed

lemma div_step:
  fixes y k :: int
  assumes "0 < k"
  shows "y div k = (y - 1) div k + (if y mod k = 0 then 1 else 0)"
proof (cases "y mod k = 0")
  case True
  have "y - 1 = k * (y div k - 1) + (k - 1)"
    using mult_div_mod_eq [of k y] True by (simp add: algebra_simps)
  then have "(y - 1) div k = y div k - 1"
    by (rule div_unique_int(1)) (use assms in simp_all)
  then show ?thesis using True by simp
next
  case False
  have "0 \<le> y mod k" "y mod k < k" using assms by simp_all
  then have r: "0 \<le> y mod k - 1" "y mod k - 1 < k" using False by simp_all
  have "y - 1 = k * (y div k) + (y mod k - 1)"
    using mult_div_mod_eq [of k y] by simp
  then have "(y - 1) div k = y div k"
    by (rule div_unique_int(1)) (use r in simp_all)
  then show ?thesis using False by simp
qed

lemma dby_step:
  "days_before_year (y + 1) = days_before_year y + (if is_leap y then 366 else 365)"
proof -
  have s4: "y div 4 = (y - 1) div 4 + (if y mod 4 = 0 then 1 else 0)"
    by (rule div_step) simp
  have s100: "y div 100 = (y - 1) div 100 + (if y mod 100 = 0 then 1 else 0)"
    by (rule div_step) simp
  have s400: "y div 400 = (y - 1) div 400 + (if y mod 400 = 0 then 1 else 0)"
    by (rule div_step) simp
  have m1: "y mod 4 = 0" if "y mod 100 = 0"
  proof -
    have "y mod 100 mod 4 = y mod 4" by (rule mod_mod_cancel) simp
    then show ?thesis using that by simp
  qed
  have m2: "y mod 100 = 0" if "y mod 400 = 0"
  proof -
    have "y mod 400 mod 100 = y mod 100" by (rule mod_mod_cancel) simp
    then show ?thesis using that by simp
  qed
  define A where "A = (y - 1) div 4"
  define B where "B = (y - 1) div 100"
  define C where "C = (y - 1) div 400"
  define A' where "A' = y div 4"
  define B' where "B' = y div 100"
  define C' where "C' = y div 400"
  have e1: "days_before_year (y + 1) = y * 365 + A' - B' + C'"
    by (simp add: days_before_year_def Let_def A'_def B'_def C'_def)
  have e0: "days_before_year y = (y - 1) * 365 + A - B + C"
    by (simp add: days_before_year_def Let_def A_def B_def C_def)
  have t4: "A' = A + (if y mod 4 = 0 then 1 else 0)"
    unfolding A'_def A_def by (rule s4)
  have t100: "B' = B + (if y mod 100 = 0 then 1 else 0)"
    unfolding B'_def B_def by (rule s100)
  have t400: "C' = C + (if y mod 400 = 0 then 1 else 0)"
    unfolding C'_def C_def by (rule s400)
  show ?thesis
  proof (cases "y mod 4 = 0")
    case False
    then have n100: "y mod 100 \<noteq> 0" using m1 by auto
    then have n400: "y mod 400 \<noteq> 0" using m2 by auto
    have "\<not> is_leap y" using False by (simp add: is_leap_def)
    moreover have "A' = A" "B' = B" "C' = C" using t4 t100 t400 False n100 n400 by simp_all
    ultimately show ?thesis unfolding e1 e0 by simp
  next
    case z4: True
    show ?thesis
    proof (cases "y mod 100 = 0")
      case False
      then have n400: "y mod 400 \<noteq> 0" using m2 by auto
      have "is_leap y" using z4 False by (simp add: is_leap_def)
      moreover have "A' = A + 1" "B' = B" "C' = C" using t4 t100 t400 z4 False n400 by simp_all
      ultimately show ?thesis unfolding e1 e0 by simp
    next
      case z100: True
      show ?thesis
      proof (cases "y mod 400 = 0")
        case False
        have "\<not> is_leap y" using z100 False by (simp add: is_leap_def)
        moreover have "A' = A + 1" "B' = B + 1" "C' = C"
          using t4 t100 t400 z4 z100 False by simp_all
        ultimately show ?thesis unfolding e1 e0 by simp
      next
        case True
        have "is_leap y" using z4 True by (simp add: is_leap_def)
        moreover have "A' = A + 1" "B' = B + 1" "C' = C + 1"
          using t4 t100 t400 z4 z100 True by simp_all
        ultimately show ?thesis unfolding e1 e0 by simp
      qed
    qed
  qed
qed

lemma dby_mono: "y \<le> y' \<Longrightarrow> days_before_year y \<le> days_before_year y'"
proof (induction y' rule: int_ge_induct)
  case base
  show ?case by simp
next
  case (step i)
  have "days_before_year i \<le> days_before_year (i + 1)"
    by (simp add: dby_step)
  with step.IH show ?case by linarith
qed

lemma month_table_all:
  "\<forall>m\<in>set [1..12]. \<forall>L\<in>set [False, True].
     0 \<le> DAYS_BEFORE_MONTH ! nat (m - 1) + (if m > 2 \<and> L then 1 else 0) \<and>
     DAYS_BEFORE_MONTH ! nat (m - 1) + (if m > 2 \<and> L then 1 else 0)
       + (if m = 2 \<and> L then 29 else DAYS_IN_MONTH ! nat (m - 1))
       \<le> (if L then 366 else 365) \<and>
     (\<forall>m'\<in>set [1..12]. m < m' \<longrightarrow>
        DAYS_BEFORE_MONTH ! nat (m - 1) + (if m > 2 \<and> L then 1 else 0)
          + (if m = 2 \<and> L then 29 else DAYS_IN_MONTH ! nat (m - 1))
        \<le> DAYS_BEFORE_MONTH ! nat (m' - 1) + (if m' > 2 \<and> L then 1 else 0))"
  by code_simp

lemma month_table:
  assumes "1 \<le> m" "m \<le> 12"
  shows "0 \<le> days_before_month y m"
    and "days_before_month y m + days_in_month y m \<le> (if is_leap y then 366 else 365)"
    and "1 \<le> m' \<Longrightarrow> m' \<le> 12 \<Longrightarrow> m < m' \<Longrightarrow>
         days_before_month y m + days_in_month y m \<le> days_before_month y m'"
proof -
  have m: "m \<in> set [1..12]" using assms by simp
  have L: "is_leap y \<in> set [False, True]" by auto
  note t = month_table_all [rule_format, OF m L]
  show "0 \<le> days_before_month y m"
    using t by (simp add: days_before_month_def)
  show "days_before_month y m + days_in_month y m \<le> (if is_leap y then 366 else 365)"
    using t by (simp add: days_before_month_def days_in_month_def)
  show "days_before_month y m + days_in_month y m \<le> days_before_month y m'"
    if "1 \<le> m'" "m' \<le> 12" "m < m'"
  proof -
    have "m' \<in> set [1..12]" using that by simp
    then show ?thesis
      using t that(3) by (simp add: days_before_month_def days_in_month_def)
  qed
qed

lemma date_trichotomy: "date_lt a b \<or> a = b \<or> date_lt b a"
  by (cases a; cases b) (auto simp: date_lt_def)

lemma toordinal_strict_mono:
  assumes "valid_date a" "valid_date b" "date_lt a b"
  shows "toordinal a < toordinal b"
proof -
  from assms(1) have va: "1 \<le> month a" "month a \<le> 12" "1 \<le> day a"
    "day a \<le> days_in_month (year a) (month a)" by (simp_all add: valid_date_def)
  from assms(2) have vb: "1 \<le> month b" "month b \<le> 12" "1 \<le> day b"
    by (simp_all add: valid_date_def)
  consider (y) "year a < year b"
    | (m) "year a = year b" "month a < month b"
    | (d) "year a = year b" "month a = month b" "day a < day b"
    using assms(3) by (auto simp: date_lt_def)
  then show ?thesis
  proof cases
    case y
    have "toordinal a \<le> days_before_year (year a)
            + (days_before_month (year a) (month a) + days_in_month (year a) (month a))"
      using va(4) by (simp add: toordinal_def)
    also have "\<dots> \<le> days_before_year (year a) + (if is_leap (year a) then 366 else 365)"
      using month_table(2) [OF va(1,2), of "year a"] by simp
    also have "\<dots> = days_before_year (year a + 1)" by (simp add: dby_step)
    also have "\<dots> \<le> days_before_year (year b)" by (rule dby_mono) (use y in simp)
    also have "\<dots> < toordinal b"
      using month_table(1) [OF vb(1,2), of "year b"] vb(3) by (simp add: toordinal_def)
    finally show ?thesis .
  next
    case m
    have "days_before_month (year a) (month a) + day a
          \<le> days_before_month (year a) (month a) + days_in_month (year a) (month a)"
      using va(4) by simp
    also have "\<dots> \<le> days_before_month (year a) (month b)"
      by (rule month_table(3) [OF va(1,2) vb(1,2) m(2)])
    also have "\<dots> < days_before_month (year a) (month b) + day b" using vb(3) by simp
    finally show ?thesis using m(1) by (simp add: toordinal_def)
  next
    case d
    then show ?thesis by (simp add: toordinal_def)
  qed
qed

lemma toordinal_bounds:
  assumes "valid_date d"
  shows "1 \<le> toordinal d" and "toordinal d \<le> MAXORDINAL"
proof -
  from assms have v: "1 \<le> year d" "year d \<le> 9999" "1 \<le> month d" "month d \<le> 12" "1 \<le> day d"
    "day d \<le> days_in_month (year d) (month d)" by (simp_all add: valid_date_def)
  have "days_before_year 1 \<le> days_before_year (year d)" by (rule dby_mono) (rule v(1))
  then have "0 \<le> days_before_year (year d)" by (simp add: days_before_year_def)
  then show "1 \<le> toordinal d"
    using month_table(1) [OF v(3,4), of "year d"] v(5) by (simp add: toordinal_def)
  have "toordinal d \<le> days_before_year (year d)
            + (days_before_month (year d) (month d) + days_in_month (year d) (month d))"
    using v(6) by (simp add: toordinal_def)
  also have "\<dots> \<le> days_before_year (year d) + (if is_leap (year d) then 366 else 365)"
    using month_table(2) [OF v(3,4), of "year d"] by simp
  also have "\<dots> = days_before_year (year d + 1)" by (simp add: dby_step)
  also have "\<dots> \<le> days_before_year 10000" by (rule dby_mono) (use v(2) in simp)
  also have "\<dots> = MAXORDINAL" by (simp add: days_before_year_def MAXORDINAL_def)
  finally show "toordinal d \<le> MAXORDINAL" .
qed

lemma fromordinal_valid:
  assumes "1 \<le> n" "n \<le> MAXORDINAL"
  shows "valid_date (fromordinal n)"
  using fromordinal_props(2-6) [OF assms(1)] fromordinal_props(7) [OF assms]
  by (simp add: valid_date_def)

lemma toordinal_le_iff:
  assumes "valid_date a" "valid_date b"
  shows "(toordinal a \<le> toordinal b) = date_le a b"
    and "(toordinal a < toordinal b) = date_lt a b"
proof -
  show lt: "(toordinal a < toordinal b) = date_lt a b"
  proof
    assume "toordinal a < toordinal b"
    then have "a \<noteq> b" and "\<not> date_lt b a"
      using toordinal_strict_mono [OF assms(2,1)] by auto
    then show "date_lt a b" using date_trichotomy [of a b] by blast
  next
    assume "date_lt a b"
    then show "toordinal a < toordinal b" by (rule toordinal_strict_mono [OF assms])
  qed
  show "(toordinal a \<le> toordinal b) = date_le a b"
  proof
    assume le: "toordinal a \<le> toordinal b"
    have "\<not> date_lt b a" using toordinal_strict_mono [OF assms(2,1)] le by auto
    then show "date_le a b" using date_trichotomy [of a b] by (auto simp: date_le_def)
  next
    assume "date_le a b"
    then show "toordinal a \<le> toordinal b"
      using lt by (auto simp: date_le_def)
  qed
qed

lemma fromordinal_toordinal:
  assumes "valid_date d"
  shows "fromordinal (toordinal d) = d"
proof -
  note b = toordinal_bounds [OF assms]
  have v: "valid_date (fromordinal (toordinal d))" by (rule fromordinal_valid [OF b])
  have e: "toordinal (fromordinal (toordinal d)) = toordinal d"
    by (rule fromordinal_props(1) [OF b(1)])
  have "\<not> date_lt (fromordinal (toordinal d)) d" "\<not> date_lt d (fromordinal (toordinal d))"
    using toordinal_strict_mono [OF v assms] toordinal_strict_mono [OF assms v] e by auto
  then show ?thesis using date_trichotomy [of "fromordinal (toordinal d)" d] by blast
qed

lemma week_arith:
  fixes T x S :: int
  shows "((T + (6 - (T + 6) mod 7) mod 7) + 6) mod 7 = 6"
    and "T \<le> x \<Longrightarrow> x < T + (6 - (T + 6) mod 7) mod 7 \<Longrightarrow> (x + 6) mod 7 \<noteq> 6"
    and "T \<le> S \<Longrightarrow> (S + 6) mod 7 = 6 \<Longrightarrow> T + (6 - (T + 6) mod 7) mod 7 \<le> S"
    and "0 \<le> (6 - (T + 6) mod 7) mod 7"
  by presburger+

text \<open>
  Claim C4. For a date today, the end of the week that line 135 computes is the first Sunday
  on or after today: what the program computes is a date, a Sunday, not before today, with no
  Sunday from today up to the day before it; and whenever a date is the first Sunday on or
  after today, the program computes it. On a Sunday the end of the week is today itself, and
  on a Wednesday it is today plus four days. (The first Sunday on or after one of the last
  days of the year 9999 is no date any more; the addition then raises OverflowError.)
\<close>

theorem next_sunday_first_sunday:
  assumes "valid_date today"
  shows "(\<forall>s. next_sunday today = Inr s \<longrightarrow>
            valid_date s \<and> weekday s = 6 \<and> date_le today s \<and>
            (\<forall>d. valid_date d \<and> date_le today d \<and> date_lt d s \<longrightarrow> weekday d \<noteq> 6)) \<and>
         (\<forall>s. valid_date s \<and> weekday s = 6 \<and> date_le today s \<and>
              (\<forall>d. valid_date d \<and> date_le today d \<and> date_lt d s \<longrightarrow> weekday d \<noteq> 6)
              \<longrightarrow> next_sunday today = Inr s) \<and>
         (weekday today = 6 \<longrightarrow> next_sunday today = Inr today) \<and>
         (weekday today = 2 \<longrightarrow> next_sunday today = date_add today 4)"
proof -
  define T where "T = toordinal today"
  define k where "k = (6 - (T + 6) mod 7) mod 7"
  note tb = toordinal_bounds [OF assms, folded T_def]
  have k0: "0 \<le> k" unfolding k_def by (rule week_arith(4))
  have ns: "next_sunday today
            = (if T + k \<le> MAXORDINAL then Inr (fromordinal (T + k)) else Inl OverflowError)"
    using tb(1) k0 by (simp add: next_sunday_def date_add_def weekday_def T_def k_def Let_def)
  have computed: "valid_date (fromordinal (T + k)) \<and> weekday (fromordinal (T + k)) = 6 \<and>
      date_le today (fromordinal (T + k)) \<and>
      (\<forall>d. valid_date d \<and> date_le today d \<and> date_lt d (fromordinal (T + k))
           \<longrightarrow> weekday d \<noteq> 6)"
    if le: "T + k \<le> MAXORDINAL"
  proof -
    have pos: "1 \<le> T + k" using tb(1) k0 by simp
    have v: "valid_date (fromordinal (T + k))" by (rule fromordinal_valid [OF pos le])
    have o: "toordinal (fromordinal (T + k)) = T + k" by (rule fromordinal_props(1) [OF pos])
    have w: "weekday (fromordinal (T + k)) = 6"
      unfolding weekday_def o unfolding k_def by (rule week_arith(1))
    have "toordinal today \<le> toordinal (fromordinal (T + k))"
      unfolding o using k0 by (simp add: T_def)
    then have l: "date_le today (fromordinal (T + k))"
      using toordinal_le_iff(1) [OF assms v] by simp
    have none: "weekday d \<noteq> 6"
      if "valid_date d" "date_le today d" "date_lt d (fromordinal (T + k))" for d
    proof -
      have "T \<le> toordinal d"
        using toordinal_le_iff(1) [OF assms that(1)] that(2) by (simp add: T_def)
      moreover have "toordinal d < T + (6 - (T + 6) mod 7) mod 7"
        using toordinal_le_iff(2) [OF that(1) v] that(3) o by (simp add: k_def)
      ultimately show ?thesis unfolding weekday_def by (rule week_arith(2))
    qed
    show ?thesis using v w l none by blast
  qed
  have A: "valid_date s \<and> weekday s = 6 \<and> date_le today s \<and>
            (\<forall>d. valid_date d \<and> date_le today d \<and> date_lt d s \<longrightarrow> weekday d \<noteq> 6)"
    if "next_sunday today = Inr s" for s
  proof -
    have le: "T + k \<le> MAXORDINAL" using that ns by (auto split: if_splits)
    then have "s = fromordinal (T + k)" using that ns by simp
    then show ?thesis using computed [OF le] by simp
  qed
  have B: "next_sunday today = Inr s"
    if s: "valid_date s" "weekday s = 6" "date_le today s"
      and first: "\<forall>d. valid_date d \<and> date_le today d \<and> date_lt d s \<longrightarrow> weekday d \<noteq> 6"
    for s
  proof -
    have TS: "T \<le> toordinal s"
      using toordinal_le_iff(1) [OF assms s(1)] s(3) by (simp add: T_def)
    have "(toordinal s + 6) mod 7 = 6" using s(2) by (simp add: weekday_def)
    with TS have kS: "T + k \<le> toordinal s" unfolding k_def by (rule week_arith(3))
    have le: "T + k \<le> MAXORDINAL" using kS toordinal_bounds(2) [OF s(1)] by simp
    note c = computed [OF le]
    have o: "toordinal (fromordinal (T + k)) = T + k"
      by (rule fromordinal_props(1)) (use tb(1) k0 in simp)
    have "\<not> T + k < toordinal s"
    proof
      assume "T + k < toordinal s"
      then have "date_lt (fromordinal (T + k)) s"
        using toordinal_le_iff(2) [of "fromordinal (T + k)" s] c s(1) o by simp
      then have "weekday (fromordinal (T + k)) \<noteq> 6" using first c by blast
      then show False using c by simp
    qed
    then have "toordinal s = T + k" using kS by simp
    then have "fromordinal (T + k) = s" using fromordinal_toordinal [OF s(1)] by simp
    then show ?thesis using ns le by simp
  qed
  have C: "next_sunday today = Inr today" if "weekday today = 6"
  proof -
    have "(T + 6) mod 7 = 6" using that by (simp add: weekday_def T_def)
    then have "k = 0" by (simp add: k_def)
    then show ?thesis
      using ns tb(2) fromordinal_toordinal [OF assms] by (simp add: T_def)
  qed
  have D: "next_sunday today = date_add today 4" if "weekday today = 2"
    using that by (simp add: next_sunday_def)
  show ?thesis using A B C D by blast
qed

theorem next_sunday_first_sunday_witness:
  "valid_date may_9 \<and> weekday may_9 = 3 \<and>
   next_sunday may_9 = Inr may_12 \<and> valid_date may_12 \<and> weekday may_12 = 6 \<and>
   date_le may_9 may_12 \<and> weekday may_10 \<noteq> 6 \<and>
   next_sunday may_12 = Inr may_12 \<and>
   weekday \<lparr>year = 2024, month = 5, day = 8\<rparr> = 2 \<and>
   next_sunday \<lparr>year = 2024, month = 5, day = 8\<rparr> = Inr may_12"
proof -
  have v9: "valid_date may_9" by code_simp
  have ns: "next_sunday may_9 = Inr may_12" by code_simp
  have v10: "valid_date may_10" by code_simp
  have le: "date_le may_9 may_10" by code_simp
  have lt: "date_lt may_10 may_12" by code_simp
  have rest: "weekday may_9 = 3 \<and> next_sunday may_12 = Inr may_12 \<and>
    weekday \<lparr>year = 2024, month = 5, day = 8\<rparr> = 2 \<and>
    next_sunday \<lparr>year = 2024, month = 5, day = 8\<rparr> = Inr may_12" by code_simp
  from next_sunday_first_sunday [OF v9] ns
  have a: "valid_date may_12 \<and> weekday may_12 = 6 \<and> date_le may_9 may_12 \<and>
           (\<forall>d. valid_date d \<and> date_le may_9 d \<and> date_lt d may_12 \<longrightarrow> weekday d \<noteq> 6)"
    by blast
  then have "weekday may_10 \<noteq> 6" using v10 le lt by blast
  then show ?thesis using v9 ns a rest by simp
qed

end
